theory Spec2Isabelle
  imports Complex_Main "HOL-Library.AList" "HOL-Library.Multiset"
begin

section \<open>Errors\<close>

text \<open>
  The Python exceptions that the modelled functions can raise. A function that may raise
  returns \<open>error + 'a\<close>, with \<open>Inl\<close> for the exception.
\<close>

datatype error = KeyError | ValueError | IndexError

definition ebind :: "error + 'a \<Rightarrow> ('a \<Rightarrow> error + 'b) \<Rightarrow> error + 'b" where
  "ebind r f = (case r of Inl e \<Rightarrow> Inl e | Inr x \<Rightarrow> f x)"

text \<open>\<open>d[k]\<close> on a dictionary: a missing key raises \<open>KeyError\<close>.\<close>

definition key :: "'a option \<Rightarrow> error + 'a" where
  "key v = (case v of None \<Rightarrow> Inl KeyError | Some x \<Rightarrow> Inr x)"

text \<open>\<open>xs[i]\<close> on a list: negative indices count from the end, out of range raises.\<close>

definition index :: "'a list \<Rightarrow> int \<Rightarrow> error + 'a" where
  "index xs i =
     (if 0 \<le> i \<and> i < int (length xs) then Inr (xs ! nat i)
      else if i < 0 \<and> - int (length xs) \<le> i then Inr (xs ! nat (int (length xs) + i))
      else Inl IndexError)"

section \<open>The input feed\<close>

text \<open>
  The JSON feed, as far as the program reads it. A field of type \<open>option\<close> is a key
  that may be absent (for \<open>teamId\<close>: absent or null); where the program reads the key
  by subscript, \<open>None\<close> makes it raise \<open>KeyError\<close>, where it reads it with \<open>get\<close>,
  \<open>None\<close> gives the default. A stat of the stats bag is a dictionary that may or may not
  have a \<open>value\<close>. \<open>platformUserHandle\<close> stands for the path
  \<open>['platformInfo']['platformUserHandle']\<close>, \<open>md_heroes\<close> for the names of
  \<open>heroes\<close>, with \<open>[]\<close> for an absent key.

  Numbers of the feed are exact rationals, so the arithmetic of the model is exact where
  Python's is in floating point. Instants are integers counting microseconds (the
  resolution of \<open>datetime\<close>), so that the difference of two timestamps is the
  \<open>timedelta\<close> between them; the parsing of the ISO string is not modelled.
\<close>

record seg_metadata =
  platformUserHandle :: "string option"
  teamId :: "int option"
  md_result :: "string option"
  md_heroes :: "string list"
  isMvp :: bool
  isSvp :: bool

record segment =
  seg_type :: "string option"
  metadata :: "seg_metadata option"
  stats :: "(string \<rightharpoonup> rat option) option"

record raw_attributes =
  raw_mode :: "string option"
  raw_id :: "string option"

record raw_metadata =
  raw_timestamp :: "int option"
  mapName :: "string option"
  mapModeName :: "string option"
  raw_duration :: "int option"
  winningTeamId :: "int option"
  raw_scores :: "int list option"

record raw_match =
  attributes :: "raw_attributes option"
  raw_meta :: "raw_metadata option"
  raw_segments :: "segment list"

record data =
  ign :: "string option"
  matches :: "raw_match list"

section \<open>Tournament clusterer\<close>

record match =
  match_id :: string
  timestamp :: int
  map_name :: string
  map_mode :: string
  duration :: int
  winning_team :: int
  scores :: "int list"
  segments :: "segment list"

definition day :: int where
  "day = 86400000000"

text \<open>The dictionary built for one tournament-mode entry of the feed.\<close>

definition summarise :: "raw_match \<Rightarrow> raw_attributes \<Rightarrow> error + match" where
  "summarise r a =
     ebind (key (raw_meta r)) (\<lambda>md.
     ebind (key (raw_timestamp md)) (\<lambda>ts.
     ebind (key (raw_id a)) (\<lambda>i.
     ebind (key (mapName md)) (\<lambda>mn.
     ebind (key (mapModeName md)) (\<lambda>mm.
     ebind (key (raw_duration md)) (\<lambda>du.
     ebind (key (winningTeamId md)) (\<lambda>wt.
     ebind (key (raw_scores md)) (\<lambda>sc.
       Inr \<lparr>match_id = i, timestamp = ts, map_name = mn, map_mode = mm, duration = du,
            winning_team = wt, scores = sc, segments = raw_segments r\<rparr>))))))))"

fun collect_matches :: "raw_match list \<Rightarrow> error + match list" where
  "collect_matches [] = Inr []"
| "collect_matches (r # rs) =
     ebind (key (attributes r)) (\<lambda>a.
       if raw_mode a = Some ''tournament''
       then ebind (summarise r a) (\<lambda>m. ebind (collect_matches rs) (\<lambda>ms. Inr (m # ms)))
       else collect_matches rs)"

text \<open>
  The scan over the sorted matches; the state of the loop is \<open>tournaments\<close> and
  \<open>current\<close>.
\<close>

fun cluster_loop :: "match list list \<Rightarrow> match list \<Rightarrow> match list \<Rightarrow> match list list \<times> match list" where
  "cluster_loop tournaments current [] = (tournaments, current)"
| "cluster_loop tournaments current (m # ms) =
     (if current = [] then cluster_loop tournaments (current @ [m]) ms
      else if timestamp m - timestamp (last current) \<le> day
           then cluster_loop tournaments (current @ [m]) ms
           else cluster_loop (tournaments @ [current]) [m] ms)"

definition cluster_sorted :: "match list \<Rightarrow> match list list" where
  "cluster_sorted ms =
     (case cluster_loop [] [] ms of
        (tournaments, current) \<Rightarrow> if current \<noteq> [] then tournaments @ [current] else tournaments)"

definition cluster_tournament_matches :: "data \<Rightarrow> error + match list list" where
  "cluster_tournament_matches d =
     ebind (collect_matches (matches d)) (\<lambda>ms. Inr (cluster_sorted (sort_key timestamp ms)))"

definition near :: "match \<Rightarrow> match \<Rightarrow> bool" where
  "near a b = (timestamp b - timestamp a \<le> day)"

definition far :: "match list \<Rightarrow> match list \<Rightarrow> bool" where
  "far c1 c2 = (timestamp (hd c2) - timestamp (last c1) > day)"

text \<open>What the clusterer reads of one entry of the feed, and which entries it keeps.\<close>

definition summary_of :: "raw_match \<Rightarrow> error + match" where
  "summary_of r = ebind (key (attributes r)) (summarise r)"

definition is_tournament :: "raw_match \<Rightarrow> bool" where
  "is_tournament r =
     (case attributes r of None \<Rightarrow> False | Some a \<Rightarrow> raw_mode a = Some ''tournament'')"

section \<open>Rate normalizer\<close>

definition calculate_per_10 :: "rat \<Rightarrow> int \<Rightarrow> rat" where
  "calculate_per_10 v duration_seconds =
     (let minutes = rat_of_int duration_seconds / 60
      in if minutes > 0 then (v / minutes) * 10 else 0)"

section \<open>Match stat extractor\<close>

text \<open>
  A detailed match record, and the dictionary \<open>player_info\<close> built for one participant.
  Its numeric entries (the copied counters, the per-10 rates, \<open>accuracy\<close> and
  \<open>kill_participation\<close>) are present or absent key by key, so they are kept as a map.
\<close>

record detailed_match =
  dm_duration :: "int option"
  dm_segments :: "segment list"

record player_info =
  name :: string
  team_id :: "int option"
  result :: string
  heroes :: "string list"
  is_mvp :: "bool option"
  is_svp :: "bool option"
  nums :: "string \<rightharpoonup> rat"

text \<open>\<open>player.get(k, 0)\<close> on a numeric entry.\<close>

definition get :: "player_info \<Rightarrow> string \<Rightarrow> rat" where
  "get p k = (case nums p k of None \<Rightarrow> 0 | Some v \<Rightarrow> v)"

definition put :: "string \<Rightarrow> rat \<Rightarrow> player_info \<Rightarrow> player_info" where
  "put k v p = p\<lparr>nums := (nums p)(k \<mapsto> v)\<rparr>"

definition stat_keys :: "string list" where
  "stat_keys =
     [''kills'', ''deaths'', ''assists'', ''kdRatio'', ''kdaRatio'',
      ''totalHeroDamage'', ''totalHeroHeal'', ''totalDamageTaken'',
      ''lastKills'', ''soloKills'', ''headKills'', ''sessionSurvivalKills'',
      ''maxContinueKills'', ''mainAttacks'', ''mainAttackHits'',
      ''continueKills3'', ''shieldHits'', ''chaosHits'', ''summonerHits'']"

text \<open>\<open>segment['metadata']\<close> with its \<open>platformUserHandle\<close>.\<close>

definition handle_of :: "segment \<Rightarrow> error + (seg_metadata \<times> string)" where
  "handle_of s =
     ebind (key (metadata s)) (\<lambda>md. ebind (key (platformUserHandle md)) (\<lambda>h. Inr (md, h)))"

text \<open>\<open>[h['name'] for h in ...] or ["Unknown"]\<close>.\<close>

definition heroes_of :: "seg_metadata \<Rightarrow> string list" where
  "heroes_of md = (if md_heroes md = [] then [''Unknown''] else md_heroes md)"

fun main_team_of :: "string option \<Rightarrow> segment list \<Rightarrow> error + int option" where
  "main_team_of player_ign [] = Inr None"
| "main_team_of player_ign (s # ss) =
     (if seg_type s = Some ''player''
      then ebind (handle_of s) (\<lambda>(md, h).
             if Some h = player_ign then Inr (teamId md) else main_team_of player_ign ss)
      else main_team_of player_ign ss)"

fun copy_stats :: "(string \<rightharpoonup> rat option) \<Rightarrow> string list \<Rightarrow> player_info \<Rightarrow> player_info" where
  "copy_stats st [] p = p"
| "copy_stats st (k # ks) p =
     copy_stats st ks
       (case st k of None \<Rightarrow> p
        | Some e \<Rightarrow> put k (case e of None \<Rightarrow> 0 | Some v \<Rightarrow> v) p)"

definition add_per_10 :: "int \<Rightarrow> player_info \<Rightarrow> player_info" where
  "add_per_10 match_duration p =
     (if match_duration \<noteq> 0
      then (put ''soloKills_per_10'' (calculate_per_10 (get p ''soloKills'') match_duration)
           (put ''damage_taken_per_10'' (calculate_per_10 (get p ''totalDamageTaken'') match_duration)
           (put ''healing_per_10'' (calculate_per_10 (get p ''totalHeroHeal'') match_duration)
           (put ''damage_per_10'' (calculate_per_10 (get p ''totalHeroDamage'') match_duration)
           (put ''assists_per_10'' (calculate_per_10 (get p ''assists'') match_duration)
           (put ''deaths_per_10'' (calculate_per_10 (get p ''deaths'') match_duration)
           (put ''kills_per_10'' (calculate_per_10 (get p ''kills'') match_duration) p)))))))
      else p)"

definition add_accuracy :: "player_info \<Rightarrow> player_info" where
  "add_accuracy p =
     (if get p ''mainAttacks'' > 0
      then put ''accuracy'' ((get p ''mainAttackHits'' / get p ''mainAttacks'') * 100) p
      else put ''accuracy'' 0 p)"

definition build_player_info :: "int \<Rightarrow> segment \<Rightarrow> error + player_info" where
  "build_player_info match_duration s =
     ebind (key (metadata s)) (\<lambda>md.
     ebind (key (platformUserHandle md)) (\<lambda>h.
     ebind (key (md_result md)) (\<lambda>r.
       Inr (put ''kill_participation'' 0
           (add_accuracy
           (add_per_10 match_duration
           (copy_stats (case stats s of None \<Rightarrow> Map.empty | Some st \<Rightarrow> st) stat_keys
              \<lparr>name = h, team_id = teamId md, result = r, heroes = heroes_of md,
               is_mvp = Some (isMvp md), is_svp = Some (isSvp md),
               nums = Map.empty\<rparr>)))))))"

text \<open>The loop over the segments; its state is \<open>team_stats\<close> and \<open>opponent_stats\<close>.\<close>

fun split_segments ::
  "int \<Rightarrow> int option \<Rightarrow> player_info list \<Rightarrow> player_info list \<Rightarrow> segment list \<Rightarrow>
   error + (player_info list \<times> player_info list)" where
  "split_segments match_duration main_team team_stats opponent_stats [] =
     Inr (team_stats, opponent_stats)"
| "split_segments match_duration main_team team_stats opponent_stats (s # ss) =
     (if seg_type s \<noteq> Some ''player''
      then split_segments match_duration main_team team_stats opponent_stats ss
      else ebind (build_player_info match_duration s) (\<lambda>p.
             if main_team \<noteq> None \<and> team_id p = main_team
             then split_segments match_duration main_team (team_stats @ [p]) opponent_stats ss
             else split_segments match_duration main_team team_stats (opponent_stats @ [p]) ss))"

definition total_kills :: "player_info list \<Rightarrow> rat" where
  "total_kills grp = sum_list (map (\<lambda>p. get p ''kills'') grp)"

definition total_assists :: "player_info list \<Rightarrow> rat" where
  "total_assists grp = sum_list (map (\<lambda>p. get p ''assists'') grp)"

definition kill_participation :: "player_info list \<Rightarrow> player_info list" where
  "kill_participation grp =
     (if total_kills grp \<noteq> 0
      then map (\<lambda>p. put ''kill_participation''
                  (((get p ''kills'' + get p ''assists'') / total_kills grp) * 100) p) grp
      else grp)"

definition extract_player_stats ::
  "detailed_match \<Rightarrow> string option \<Rightarrow> error + (player_info list \<times> player_info list)" where
  "extract_player_stats match_data player_ign =
     (let match_duration = (case dm_duration match_data of None \<Rightarrow> 0 | Some d \<Rightarrow> d)
      in ebind (main_team_of player_ign (dm_segments match_data)) (\<lambda>main_team.
         ebind (split_segments match_duration main_team [] [] (dm_segments match_data))
           (\<lambda>(team_stats, opponent_stats).
              Inr (kill_participation team_stats, kill_participation opponent_stats))))"

section \<open>Aggregation engine\<close>

subsection \<open>Fallback extraction from the overview segments\<close>

text \<open>\<open>segment['stats'][k]['value']\<close>: every step raises on a missing key.\<close>

definition stat_value :: "(string \<rightharpoonup> rat option) \<Rightarrow> string \<Rightarrow> error + rat" where
  "stat_value st k = ebind (key (st k)) key"

text \<open>\<open>segment['stats'].get(k, {}).get('value', 0)\<close>.\<close>

definition stat_value_or_0 :: "(string \<rightharpoonup> rat option) \<Rightarrow> string \<Rightarrow> rat" where
  "stat_value_or_0 st k = (case st k of None \<Rightarrow> 0 | Some e \<Rightarrow> (case e of None \<Rightarrow> 0 | Some v \<Rightarrow> v))"

definition overview_info :: "segment \<Rightarrow> error + player_info" where
  "overview_info s =
     ebind (key (metadata s)) (\<lambda>md.
     ebind (key (platformUserHandle md)) (\<lambda>h.
     ebind (key (md_result md)) (\<lambda>r.
     ebind (key (stats s)) (\<lambda>st.
     ebind (stat_value st ''kills'') (\<lambda>k.
     ebind (stat_value st ''deaths'') (\<lambda>d.
     ebind (stat_value st ''assists'') (\<lambda>a.
     ebind (stat_value st ''kdaRatio'') (\<lambda>kda.
     ebind (stat_value st ''totalHeroDamage'') (\<lambda>dmg.
       Inr \<lparr>name = h, team_id = teamId md, result = r, heroes = heroes_of md,
            is_mvp = None, is_svp = None,
            nums = [''kills'' \<mapsto> k, ''deaths'' \<mapsto> d, ''assists'' \<mapsto> a, ''kdaRatio'' \<mapsto> kda,
                    ''totalHeroDamage'' \<mapsto> dmg,
                    ''totalHeroHeal'' \<mapsto> stat_value_or_0 st ''totalHeroHeal'']\<rparr>)))))))))"

fun fallback_stats ::
  "int \<Rightarrow> player_info list \<Rightarrow> player_info list \<Rightarrow> segment list \<Rightarrow>
   error + (player_info list \<times> player_info list)" where
  "fallback_stats player_team team_stats opponent_stats [] = Inr (team_stats, opponent_stats)"
| "fallback_stats player_team team_stats opponent_stats (s # ss) =
     (if seg_type s = Some ''overview''
      then ebind (overview_info s) (\<lambda>info.
             if team_id info = Some player_team
             then fallback_stats player_team (team_stats @ [info]) opponent_stats ss
             else fallback_stats player_team team_stats (opponent_stats @ [info]) ss)
      else fallback_stats player_team team_stats opponent_stats ss)"

subsection \<open>The running aggregate of one player\<close>

record perf =
  perf_match_id :: string
  hero :: string
  perf_result :: string
  kills :: rat
  deaths :: rat
  assists :: rat
  kda :: rat
  damage_per_10 :: rat
  healing_per_10 :: rat
  kills_per_10 :: rat
  deaths_per_10 :: rat
  assists_per_10 :: rat
  perf_kill_participation :: rat
  accuracy :: rat
  solo_kills :: rat
  soloKills_per_10 :: rat
  last_kills :: rat
  fb_per_10 :: rat
  head_kills :: rat
  perf_is_mvp :: bool
  perf_is_svp :: bool

text \<open>
  The dictionary of one player in \<open>player_stats\<close>. The keys that only the finalisation
  adds (the averages and \<open>win_rate\<close>) are the map \<open>derived\<close>. \<open>heroes_played\<close> stays a
  set: the order of \<open>list(set)\<close> is not determined by the program.
\<close>

record tournament_stats =
  matches_played :: nat
  wins :: nat
  losses :: nat
  heroes_played :: "string set"
  total_kills_sum :: rat
  total_last_kills :: rat
  total_deaths :: rat
  total_assists_sum :: rat
  total_damage :: rat
  total_healing :: rat
  total_damage_taken :: rat
  total_solo_kills :: rat
  total_head_kills :: rat
  total_shield_hits :: rat
  total_kill_participation :: rat
  total_minutes :: rat
  avg_kda :: rat
  best_kda :: rat
  best_hero :: "string option"
  match_performances :: "perf list"
  derived :: "string \<rightharpoonup> rat"

definition new_stats :: tournament_stats where
  "new_stats =
     \<lparr>matches_played = 0, wins = 0, losses = 0, heroes_played = {},
      total_kills_sum = 0, total_last_kills = 0, total_deaths = 0, total_assists_sum = 0,
      total_damage = 0, total_healing = 0, total_damage_taken = 0, total_solo_kills = 0,
      total_head_kills = 0, total_shield_hits = 0, total_kill_participation = 0,
      total_minutes = 0, avg_kda = 0, best_kda = 0, best_hero = None,
      match_performances = [], derived = Map.empty\<rparr>"

definition flag :: "bool option \<Rightarrow> bool" where
  "flag b = (case b of None \<Rightarrow> False | Some v \<Rightarrow> v)"

definition snapshot :: "string \<Rightarrow> int \<Rightarrow> string \<Rightarrow> player_info \<Rightarrow> perf" where
  "snapshot mid duration_sec h player =
     \<lparr>perf_match_id = mid, hero = h, perf_result = result player,
      kills = get player ''kills'', deaths = get player ''deaths'',
      assists = get player ''assists'', kda = get player ''kdaRatio'',
      damage_per_10 = calculate_per_10 (get player ''totalHeroDamage'') duration_sec,
      healing_per_10 = calculate_per_10 (get player ''totalHeroHeal'') duration_sec,
      kills_per_10 = calculate_per_10 (get player ''kills'') duration_sec,
      deaths_per_10 = calculate_per_10 (get player ''deaths'') duration_sec,
      assists_per_10 = calculate_per_10 (get player ''assists'') duration_sec,
      perf_kill_participation = get player ''kill_participation'',
      accuracy = get player ''accuracy'',
      solo_kills = get player ''soloKills'',
      soloKills_per_10 = calculate_per_10 (get player ''soloKills'') duration_sec,
      last_kills = get player ''lastKills'',
      fb_per_10 = calculate_per_10 (get player ''lastKills'') duration_sec,
      head_kills = get player ''headKills'',
      perf_is_mvp = flag (is_mvp player), perf_is_svp = flag (is_svp player)\<rparr>"

text \<open>
  One pass of the body of \<open>for player in team_stats\<close> on the player's dictionary.
  \<open>heroes[0]\<close> raises on an empty list.
\<close>

definition update_player ::
  "string \<Rightarrow> int \<Rightarrow> tournament_stats \<Rightarrow> player_info \<Rightarrow> error + tournament_stats" where
  "update_player mid duration_sec st player =
     ebind (index (heroes player) 0) (\<lambda>h.
       Inr (st\<lparr>matches_played := matches_played st + 1,
               total_minutes := total_minutes st + rat_of_int duration_sec / 60,
               wins := (if result player = ''win'' then wins st + 1 else wins st),
               losses := (if result player = ''win'' then losses st else losses st + 1),
               heroes_played := heroes_played st \<union> set (heroes player),
               total_kills_sum := total_kills_sum st + get player ''kills'',
               total_deaths := total_deaths st + get player ''deaths'',
               total_assists_sum := total_assists_sum st + get player ''assists'',
               total_damage := total_damage st + get player ''totalHeroDamage'',
               total_healing := total_healing st + get player ''totalHeroHeal'',
               total_damage_taken := total_damage_taken st + get player ''totalDamageTaken'',
               total_solo_kills := total_solo_kills st + get player ''soloKills'',
               total_last_kills := total_last_kills st + get player ''lastKills'',
               total_head_kills := total_head_kills st + get player ''headKills'',
               total_shield_hits := total_shield_hits st + get player ''shieldHits'',
               total_kill_participation :=
                 total_kill_participation st + get player ''kill_participation'',
               avg_kda := avg_kda st + get player ''kdaRatio'',
               best_kda :=
                 (if get player ''kdaRatio'' > best_kda st then get player ''kdaRatio''
                  else best_kda st),
               best_hero :=
                 (if get player ''kdaRatio'' > best_kda st then Some h else best_hero st),
               match_performances :=
                 match_performances st @ [snapshot mid duration_sec h player]\<rparr>))"

text \<open>
  \<open>player_stats\<close> is a \<open>defaultdict\<close>: reading a name that is not there yet gives the
  zero-initialised dictionary, and the update stores it under the name.
\<close>

definition stats_of :: "(string \<times> tournament_stats) list \<Rightarrow> string \<Rightarrow> tournament_stats" where
  "stats_of ps n = (case map_of ps n of None \<Rightarrow> new_stats | Some st \<Rightarrow> st)"

fun update_team ::
  "string \<Rightarrow> int \<Rightarrow> (string \<times> tournament_stats) list \<Rightarrow> player_info list \<Rightarrow>
   error + (string \<times> tournament_stats) list" where
  "update_team mid duration_sec ps [] = Inr ps"
| "update_team mid duration_sec ps (player # rest) =
     ebind (update_player mid duration_sec (stats_of ps (name player)) player) (\<lambda>st.
       update_team mid duration_sec (AList.update (name player) st ps) rest)"

definition finalize :: "tournament_stats \<Rightarrow> tournament_stats" where
  "finalize st =
     (if matches_played st > 0
      then (let n = rat_of_nat (matches_played st); total_min = total_minutes st
            in st\<lparr>avg_kda := avg_kda st / n,
                  derived := derived st ++ map_of
                    ([(''avg_kills'', total_kills_sum st / n),
                      (''avg_deaths'', total_deaths st / n),
                      (''avg_assists'', total_assists_sum st / n),
                      (''avg_damage'', total_damage st / n),
                      (''avg_healing'', total_healing st / n),
                      (''avg_damage_taken'', total_damage_taken st / n),
                      (''avg_solo_kills'', total_solo_kills st / n),
                      (''avg_last_kills'', total_last_kills st / n),
                      (''avg_head_kills'', total_head_kills st / n),
                      (''avg_shield_hits'', total_shield_hits st / n),
                      (''avg_kill_participation'', total_kill_participation st / n)] @
                     (if total_min > 0
                      then [(''avg_kills_per_10'', (total_kills_sum st / total_min) * 10),
                            (''avg_fb_per_10'', (total_last_kills st / total_min) * 10),
                            (''avg_solo_kills_per_10'', (total_solo_kills st / total_min) * 10),
                            (''avg_deaths_per_10'', (total_deaths st / total_min) * 10),
                            (''avg_assists_per_10'', (total_assists_sum st / total_min) * 10),
                            (''avg_damage_per_10'', (total_damage st / total_min) * 10),
                            (''avg_healing_per_10'', (total_healing st / total_min) * 10),
                            (''avg_damage_taken_per_10'',
                               (total_damage_taken st / total_min) * 10)]
                      else []) @
                     [(''win_rate'', (rat_of_nat (wins st) / n) * 100)])\<rparr>)
      else st)"

subsection \<open>Folding the matches of a tournament\<close>

definition digit :: "nat \<Rightarrow> char" where
  "digit n = ''0123456789'' ! n"

fun str_nat :: "nat \<Rightarrow> string" where
  "str_nat n = (if n < 10 then [digit n] else str_nat (n div 10) @ [digit (n mod 10)])"

declare str_nat.simps [simp del]

definition str_int :: "int \<Rightarrow> string" where
  "str_int i = (if i < 0 then ''-'' @ str_nat (nat (- i)) else str_nat (nat i))"

definition pad2 :: "string \<Rightarrow> string" where
  "pad2 s = (if length s < 2 then ''0'' @ s else s)"

definition format_duration :: "int \<Rightarrow> string" where
  "format_duration seconds =
     (let minutes = seconds div 60; sec = seconds mod 60
      in pad2 (str_int minutes) @ '':'' @ pad2 (str_int sec))"

definition score_of :: "int \<Rightarrow> int list \<Rightarrow> error + string" where
  "score_of player_team sc =
     (if sc \<noteq> []
      then ebind (index sc player_team) (\<lambda>a.
           ebind (index sc (1 - player_team)) (\<lambda>b. Inr (str_int a @ ''-'' @ str_int b)))
      else Inr ''N/A'')"

definition match_result :: "string option \<Rightarrow> player_info list \<Rightarrow> string" where
  "match_result player_ign players =
     (case find (\<lambda>p. Some (name p) = player_ign) players of
        None \<Rightarrow> ''Unknown'' | Some p \<Rightarrow> result p)"

text \<open>
  \<open>match_info\<close>; its \<open>timestamp\<close> is kept as the instant, the rendering of dates is
  not modelled.
\<close>

record match_info =
  mi_id :: string
  mi_map :: string
  mi_mode :: string
  mi_result :: string
  mi_duration :: string
  duration_seconds :: int
  score :: string
  mi_timestamp :: int
  team_stats :: "player_info list"
  opponent_stats :: "player_info list"

record tournament_info =
  ti_id :: nat
  start_date :: int
  end_date :: int
  match_count :: nat
  ti_matches :: "match_info list"
  player_stats :: "(string \<times> tournament_stats) list"

text \<open>
  The part of the loop body after the detailed record has been looked up:
  \<open>detailed_match\<close> is \<open>None\<close> when neither the cache nor the fetch gave one.
\<close>

definition fold_match ::
  "string option \<Rightarrow> int \<Rightarrow> detailed_match option \<Rightarrow> match \<Rightarrow> tournament_info \<Rightarrow>
   error + tournament_info" where
  "fold_match player_ign player_team detailed m ti =
     ebind (case detailed of
              Some dm \<Rightarrow> extract_player_stats dm player_ign
            | None \<Rightarrow> fallback_stats player_team [] [] (segments m))
       (\<lambda>(team, opp).
     ebind (update_team (match_id m) (duration m) (player_stats ti) team) (\<lambda>ps.
     ebind (score_of player_team (scores m)) (\<lambda>sc.
       Inr (ti\<lparr>player_stats := ps,
               ti_matches := ti_matches ti @
                 [\<lparr>mi_id = match_id m, mi_map = map_name m, mi_mode = map_mode m,
                   mi_result = match_result player_ign (team @ opp),
                   mi_duration = format_duration (duration m),
                   duration_seconds = duration m, score = sc,
                   mi_timestamp = timestamp m,
                   team_stats = team, opponent_stats = opp\<rparr>]\<rparr>))))"

text \<open>
  The cache and the fetch are outside the program: \<open>resolve\<close> takes the state of the
  world and a match id, and gives the detailed record, if any, and the new state. The
  state is returned also when the run raises.
\<close>

type_synonym 'w resolver = "'w \<Rightarrow> string \<Rightarrow> detailed_match option \<times> 'w"

fun process_matches ::
  "'w resolver \<Rightarrow> string option \<Rightarrow> int \<Rightarrow> match list \<Rightarrow> 'w \<Rightarrow> tournament_info \<Rightarrow>
   (error + tournament_info) \<times> 'w" where
  "process_matches resolve player_ign player_team [] w ti = (Inr ti, w)"
| "process_matches resolve player_ign player_team (m # ms) w ti =
     (case resolve w (match_id m) of
        (detailed, w') \<Rightarrow>
          (case fold_match player_ign player_team detailed m ti of
             Inl e \<Rightarrow> (Inl e, w')
           | Inr ti' \<Rightarrow> process_matches resolve player_ign player_team ms w' ti'))"

definition analyze_tournament ::
  "'w resolver \<Rightarrow> string option \<Rightarrow> int \<Rightarrow> nat \<Rightarrow> match list \<Rightarrow> 'w \<Rightarrow>
   (error + tournament_info) \<times> 'w" where
  "analyze_tournament resolve player_ign player_team idx tournament w =
     (case tournament of
        [] \<Rightarrow> (Inl IndexError, w)
      | _ # _ \<Rightarrow>
          (case process_matches resolve player_ign player_team tournament w
                  \<lparr>ti_id = idx + 1, start_date = timestamp (hd tournament),
                   end_date = timestamp (last tournament),
                   match_count = length tournament, ti_matches = [], player_stats = []\<rparr> of
             (Inl e, w') \<Rightarrow> (Inl e, w')
           | (Inr ti, w') \<Rightarrow>
               (Inr (ti\<lparr>player_stats := map (\<lambda>(n, st). (n, finalize st)) (player_stats ti)\<rparr>),
                w')))"

fun analyze_loop ::
  "'w resolver \<Rightarrow> string option \<Rightarrow> int \<Rightarrow> nat \<Rightarrow> match list list \<Rightarrow> 'w \<Rightarrow>
   tournament_info list \<Rightarrow> (error + tournament_info list) \<times> 'w" where
  "analyze_loop resolve player_ign player_team idx [] w tournament_results =
     (Inr tournament_results, w)"
| "analyze_loop resolve player_ign player_team idx (t # ts) w tournament_results =
     (case analyze_tournament resolve player_ign player_team idx t w of
        (Inl e, w') \<Rightarrow> (Inl e, w')
      | (Inr ti, w') \<Rightarrow>
          analyze_loop resolve player_ign player_team (idx + 1) ts w' (tournament_results @ [ti]))"

subsection \<open>The reference player's team\<close>

fun scan_segments :: "string option \<Rightarrow> segment list \<Rightarrow> error + int option" where
  "scan_segments player_ign [] = Inr None"
| "scan_segments player_ign (s # ss) =
     (if seg_type s = Some ''overview''
      then ebind (handle_of s) (\<lambda>(md, h).
             if Some h = player_ign then Inr (teamId md) else scan_segments player_ign ss)
      else scan_segments player_ign ss)"

fun find_player_team :: "string option \<Rightarrow> raw_match list \<Rightarrow> error + int option" where
  "find_player_team player_ign [] = Inr None"
| "find_player_team player_ign (m # ms) =
     ebind (scan_segments player_ign (raw_segments m)) (\<lambda>player_team.
       if player_team \<noteq> None then Inr player_team else find_player_team player_ign ms)"

definition analyze_tournaments ::
  "'w resolver \<Rightarrow> data \<Rightarrow> 'w \<Rightarrow> (error + tournament_info list) \<times> 'w" where
  "analyze_tournaments resolve d w =
     (case find_player_team (ign d) (matches d) of
        Inl e \<Rightarrow> (Inl e, w)
      | Inr None \<Rightarrow> (Inl ValueError, w)
      | Inr (Some player_team) \<Rightarrow>
          (case cluster_tournament_matches d of
             Inl e \<Rightarrow> (Inl e, w)
           | Inr tournaments_cluster \<Rightarrow>
               analyze_loop resolve (ign d) player_team 0 tournaments_cluster w []))"

section \<open>Example inputs\<close>

definition overview_segment :: "string \<Rightarrow> int \<Rightarrow> string \<Rightarrow> rat \<Rightarrow> rat \<Rightarrow> rat \<Rightarrow> segment" where
  "overview_segment h t r k d a =
     \<lparr>seg_type = Some ''overview'',
      metadata = Some \<lparr>platformUserHandle = Some h, teamId = Some t, md_result = Some r,
                       md_heroes = [''Hulk''], isMvp = False, isSvp = False\<rparr>,
      stats = Some [''kills'' \<mapsto> Some k, ''deaths'' \<mapsto> Some d, ''assists'' \<mapsto> Some a,
                    ''kdaRatio'' \<mapsto> Some ((k + a) / d), ''totalHeroDamage'' \<mapsto> Some 12000]\<rparr>"

definition tournament_match :: "string \<Rightarrow> int \<Rightarrow> int \<Rightarrow> segment list \<Rightarrow> raw_match" where
  "tournament_match i ts du segs =
     \<lparr>attributes = Some \<lparr>raw_mode = Some ''tournament'', raw_id = Some i\<rparr>,
      raw_meta = Some \<lparr>raw_timestamp = Some ts, mapName = Some ''Tokyo 2099'',
                       mapModeName = Some ''Convoy'', raw_duration = Some du,
                       winningTeamId = Some 0, raw_scores = Some [2, 1]\<rparr>,
      raw_segments = segs\<rparr>"

definition hour :: int where
  "hour = 3600000000"

text \<open>
  Three tournament-mode matches of the player \<open>Ace\<close>: two one hour apart, the third 30
  hours after the second. No detailed record is available for any of them.
\<close>

definition scenario :: data where
  "scenario =
     \<lparr>ign = Some ''Ace'',
      matches =
        [tournament_match ''m1'' 0 600 [overview_segment ''Ace'' 0 ''win'' 10 2 3],
         tournament_match ''m2'' hour 900 [overview_segment ''Ace'' 0 ''loss'' 4 6 1],
         tournament_match ''m3'' (31 * hour) 300 [overview_segment ''Ace'' 0 ''win'' 1 1 1]]\<rparr>"

definition no_detail :: "unit resolver" where
  "no_detail w i = (None, w)"

definition summary :: "string \<Rightarrow> int \<Rightarrow> int \<Rightarrow> segment list \<Rightarrow> match" where
  "summary i ts du segs =
     \<lparr>match_id = i, timestamp = ts, map_name = ''Tokyo 2099'', map_mode = ''Convoy'',
      duration = du, winning_team = 0, scores = [2, 1], segments = segs\<rparr>"

definition scenario_matches :: "match list" where
  "scenario_matches =
     [summary ''m1'' 0 600 [overview_segment ''Ace'' 0 ''win'' 10 2 3],
      summary ''m2'' hour 900 [overview_segment ''Ace'' 0 ''loss'' 4 6 1],
      summary ''m3'' (31 * hour) 300 [overview_segment ''Ace'' 0 ''win'' 1 1 1]]"

text \<open>Two matches exactly 24 hours apart, and two matches one microsecond further apart.\<close>

definition on_boundary :: data where
  "on_boundary =
     \<lparr>ign = Some ''Ace'',
      matches = [tournament_match ''m1'' 0 600 [], tournament_match ''m2'' day 600 []]\<rparr>"

definition past_boundary :: data where
  "past_boundary =
     \<lparr>ign = Some ''Ace'',
      matches = [tournament_match ''m1'' 0 600 [], tournament_match ''m2'' (day + 1) 600 []]\<rparr>"

text \<open>
  A detailed record of one match in which the team of \<open>Ace\<close> has three players, with
  kills 5, 3, 2 and assists 1, 0, 0; and one in which \<open>Ace\<close> has 5 kills and 6 assists
  in a team with 10 kills.
\<close>

definition player_segment :: "string \<Rightarrow> int \<Rightarrow> rat \<Rightarrow> rat \<Rightarrow> segment" where
  "player_segment h t k a =
     \<lparr>seg_type = Some ''player'',
      metadata = Some \<lparr>platformUserHandle = Some h, teamId = Some t, md_result = Some ''win'',
                       md_heroes = [''Storm''], isMvp = False, isSvp = False\<rparr>,
      stats = Some [''kills'' \<mapsto> Some k, ''assists'' \<mapsto> Some a]\<rparr>"

definition trio :: detailed_match where
  "trio =
     \<lparr>dm_duration = Some 600,
      dm_segments = [player_segment ''Ace'' 0 5 1, player_segment ''Bo'' 0 3 0,
                     player_segment ''Cy'' 0 2 0, player_segment ''Dee'' 1 4 4]\<rparr>"

definition duo :: detailed_match where
  "duo =
     \<lparr>dm_duration = Some 600,
      dm_segments = [player_segment ''Ace'' 0 5 6, player_segment ''Bo'' 0 5 0]\<rparr>"

section \<open>Reading the output\<close>

text \<open>
  The matches of a tournament in which the player \<open>n\<close> is on the team side, each as often
  as the name occurs in its \<open>team_stats\<close>.
\<close>

definition appearances :: "string \<Rightarrow> match_info list \<Rightarrow> match_info list" where
  "appearances n mis =
     concat (map (\<lambda>mi. replicate (length (filter (\<lambda>p. name p = n) (team_stats mi))) mi) mis)"

text \<open>The finalisation of every player of a tournament.\<close>

definition finalize_all :: "tournament_info \<Rightarrow> tournament_info" where
  "finalize_all ti = ti\<lparr>player_stats := map (\<lambda>(n, st). (n, finalize st)) (player_stats ti)\<rparr>"

text \<open>
  What the running best of an aggregate is with respect to its performance log, and what
  its counters are with respect to it.
\<close>

definition best_ok :: "tournament_stats \<Rightarrow> bool" where
  "best_ok st \<longleftrightarrow>
     best_kda st = Max (insert 0 (set (map kda (match_performances st)))) \<and>
     best_hero st =
       (if 0 < best_kda st
        then map_option hero (find (\<lambda>q. kda q = best_kda st) (match_performances st))
        else None)"

definition counts_ok :: "tournament_stats \<Rightarrow> bool" where
  "counts_ok st \<longleftrightarrow>
     wins st + losses st = matches_played st \<and>
     length (match_performances st) = matches_played st \<and>
     wins st = length (filter (\<lambda>q. perf_result q = ''win'') (match_performances st)) \<and>
     losses st = length (filter (\<lambda>q. perf_result q \<noteq> ''win'') (match_performances st))"

text \<open>
  An overview segment that has everything the fallback extraction reads by subscript: the
  handle, the result, the stats bag and, each with its value, the five counters
  \<open>kills\<close>, \<open>deaths\<close>, \<open>assists\<close>, \<open>kdaRatio\<close> and \<open>totalHeroDamage\<close>.
\<close>

definition has_value :: "(string \<rightharpoonup> rat option) \<Rightarrow> string \<Rightarrow> bool" where
  "has_value st k = (case st k of None \<Rightarrow> False | Some e \<Rightarrow> e \<noteq> None)"

definition required_present :: "segment \<Rightarrow> bool" where
  "required_present s =
     (case metadata s of
        None \<Rightarrow> False
      | Some md \<Rightarrow>
          platformUserHandle md \<noteq> None \<and> md_result md \<noteq> None \<and>
          (case stats s of
             None \<Rightarrow> False
           | Some st \<Rightarrow>
               list_all (has_value st)
                 [''kills'', ''deaths'', ''assists'', ''kdaRatio'', ''totalHeroDamage'']))"

definition is_overview :: "segment \<Rightarrow> bool" where
  "is_overview s = (seg_type s = Some ''overview'')"

text \<open>
  An overview segment of \<open>Ace\<close> whose stats bag has no \<open>kills\<close>, and a feed whose only
  match has this segment after a complete one.
\<close>

definition no_kills_segment :: segment where
  "no_kills_segment =
     \<lparr>seg_type = Some ''overview'',
      metadata = Some \<lparr>platformUserHandle = Some ''Ace'', teamId = Some 0,
                       md_result = Some ''win'', md_heroes = [''Hulk''], isMvp = False,
                       isSvp = False\<rparr>,
      stats = Some [''deaths'' \<mapsto> Some 2, ''assists'' \<mapsto> Some 3, ''kdaRatio'' \<mapsto> Some 4,
                    ''totalHeroDamage'' \<mapsto> Some 12000, ''totalHeroHeal'' \<mapsto> Some 500]\<rparr>"

definition no_kills_feed :: data where
  "no_kills_feed =
     \<lparr>ign = Some ''Ace'',
      matches = [tournament_match ''m1'' 0 600 [no_kills_segment]]\<rparr>"

text \<open>\<open>segment.get('stats', {})\<close>.\<close>

definition stats_bag :: "segment \<Rightarrow> string \<rightharpoonup> rat option" where
  "stats_bag s = (case stats s of None \<Rightarrow> Map.empty | Some st \<Rightarrow> st)"

text \<open>
  For the scan for the reference player's team: the overview segments that carry the
  player's handle, the team id of a segment, the team id that the scan reads in a match
  (that of the first overview segment with the handle), and the matches all of whose
  overview segments have a handle.
\<close>

definition own_overview :: "string option \<Rightarrow> segment \<Rightarrow> bool" where
  "own_overview player_ign s =
     (is_overview s \<and> (case handle_of s of Inl e \<Rightarrow> False | Inr (md, h) \<Rightarrow> Some h = player_ign))"

definition team_of :: "segment \<Rightarrow> int option" where
  "team_of s = (case metadata s of None \<Rightarrow> None | Some md \<Rightarrow> teamId md)"

definition first_team :: "string option \<Rightarrow> raw_match \<Rightarrow> int option" where
  "first_team player_ign m =
     (case find (own_overview player_ign) (raw_segments m) of
        None \<Rightarrow> None | Some s \<Rightarrow> team_of s)"

definition handles_present :: "raw_match \<Rightarrow> bool" where
  "handles_present m =
     list_all (\<lambda>s. is_overview s \<longrightarrow> (case handle_of s of Inl e \<Rightarrow> False | Inr x \<Rightarrow> True))
       (raw_segments m)"

text \<open>
  An overview segment of \<open>Ace\<close> without a team id, and a feed whose only match has it
  before an overview segment of \<open>Ace\<close> with the team id 1.
\<close>

definition teamless_segment :: segment where
  "teamless_segment =
     \<lparr>seg_type = Some ''overview'',
      metadata = Some \<lparr>platformUserHandle = Some ''Ace'', teamId = None,
                       md_result = Some ''win'', md_heroes = [''Hulk''], isMvp = False,
                       isSvp = False\<rparr>,
      stats = Some Map.empty\<rparr>"

definition late_team_feed :: data where
  "late_team_feed =
     \<lparr>ign = Some ''Ace'',
      matches = [tournament_match ''m1'' 0 600
                   [teamless_segment, overview_segment ''Ace'' 1 ''win'' 10 2 3]]\<rparr>"

section \<open>Results and errors\<close>

lemma ebind_Inr: "ebind r f = Inr y \<longleftrightarrow> (\<exists>x. r = Inr x \<and> f x = Inr y)"
  by (cases r) (simp_all add: ebind_def)

lemma ebind_simps [simp]: "ebind (Inl e) f = Inl e" "ebind (Inr x) f = f x"
  by (simp_all add: ebind_def)

lemma key_simps [simp]: "key None = Inl KeyError" "key (Some x) = Inr x"
  by (simp_all add: key_def)

lemma key_Inr: "key v = Inr x \<longleftrightarrow> v = Some x"
  by (cases v) simp_all

section \<open>The clusterer\<close>

text \<open>
  The invariants of the scan, for every state \<open>tournaments\<close>, \<open>current\<close> of the loop.
\<close>

lemma cluster_loop_concat:
  "concat (fst (cluster_loop ts cur ms)) @ snd (cluster_loop ts cur ms) = concat ts @ cur @ ms"
  by (induction ms arbitrary: ts cur) simp_all

lemma cluster_loop_nonempty:
  "\<forall>c\<in>set ts. c \<noteq> [] \<Longrightarrow> \<forall>c\<in>set (fst (cluster_loop ts cur ms)). c \<noteq> []"
proof (induction ms arbitrary: ts cur)
  case Nil
  then show ?case by simp
next
  case (Cons m ms)
  note same = Cons.IH [OF Cons.prems]
  show ?case
  proof (cases "cur = []")
    case True
    then show ?thesis using same [of "[m]"] by simp
  next
    case False
    then have "\<forall>c\<in>set (ts @ [cur]). c \<noteq> []"
      using Cons.prems by simp
    note new = Cons.IH [OF this]
    show ?thesis
      using same [of "cur @ [m]"] new [of "[m]"] False by simp
  qed
qed

lemma cluster_loop_near:
  "\<forall>c\<in>set ts. successively near c \<Longrightarrow> successively near cur \<Longrightarrow>
   (\<forall>c\<in>set (fst (cluster_loop ts cur ms)). successively near c) \<and>
   successively near (snd (cluster_loop ts cur ms))"
proof (induction ms arbitrary: ts cur)
  case Nil
  then show ?case by simp
next
  case (Cons m ms)
  have single: "successively near [m]" by simp
  show ?case
  proof (cases "cur = []")
    case True
    then show ?thesis
      using Cons.IH [OF Cons.prems(1) single] by simp
  next
    case False
    show ?thesis
    proof (cases "timestamp m - timestamp (last cur) \<le> day")
      case True
      have "successively near (cur @ [m])"
        using Cons.prems(2) True \<open>cur \<noteq> []\<close>
        by (simp add: successively_append_iff near_def)
      from Cons.IH [OF Cons.prems(1) this] show ?thesis
        using True \<open>cur \<noteq> []\<close> by simp
    next
      case far: False
      have "\<forall>c\<in>set (ts @ [cur]). successively near c"
        using Cons.prems by simp
      from Cons.IH [OF this single] show ?thesis
        using far \<open>cur \<noteq> []\<close> by simp
    qed
  qed
qed

lemma cluster_loop_far:
  "cur \<noteq> [] \<Longrightarrow> successively far (ts @ [cur]) \<Longrightarrow>
   successively far (fst (cluster_loop ts cur ms) @ [snd (cluster_loop ts cur ms)])"
proof (induction ms arbitrary: ts cur)
  case Nil
  then show ?case by simp
next
  case (Cons m ms)
  show ?case
  proof (cases "timestamp m - timestamp (last cur) \<le> day")
    case True
    have "successively far (ts @ [cur @ [m]])"
      using Cons.prems by (simp add: successively_append_iff far_def)
    then show ?thesis
      using Cons.IH [of "cur @ [m]" ts] True Cons.prems(1) by simp
  next
    case False
    have "successively far ((ts @ [cur]) @ [[m]])"
      using Cons.prems False by (simp add: successively_append_iff far_def)
    then show ?thesis
      using Cons.IH [of "[m]" "ts @ [cur]"] False Cons.prems(1) by simp
  qed
qed

lemma cluster_loop_current:
  "cur \<noteq> [] \<Longrightarrow> snd (cluster_loop ts cur ms) \<noteq> []"
  by (induction ms arbitrary: ts cur) simp_all

lemma cluster_sorted_Nil: "cluster_sorted [] = []"
  by (simp add: cluster_sorted_def)

lemma cluster_sorted_Cons:
  "cluster_sorted (m # ms) = fst (cluster_loop [] [m] ms) @ [snd (cluster_loop [] [m] ms)]"
  using cluster_loop_current [of "[m]" "[]" ms]
  by (cases "cluster_loop [] [m] ms") (simp add: cluster_sorted_def)

lemma concat_cluster_sorted: "concat (cluster_sorted ms) = ms"
proof (cases ms)
  case Nil
  then show ?thesis by (simp add: cluster_sorted_Nil)
next
  case (Cons m ms')
  then show ?thesis
    using cluster_loop_concat [of "[]" "[m]" ms'] by (simp add: cluster_sorted_Cons)
qed

lemma cluster_sorted_nonempty: "c \<in> set (cluster_sorted ms) \<Longrightarrow> c \<noteq> []"
proof (cases ms)
  case Nil
  assume "c \<in> set (cluster_sorted ms)"
  with Nil show ?thesis by (simp add: cluster_sorted_Nil)
next
  case (Cons m ms')
  assume c: "c \<in> set (cluster_sorted ms)"
  have "\<forall>c\<in>set (fst (cluster_loop [] [m] ms')). c \<noteq> []"
    by (rule cluster_loop_nonempty) simp
  moreover have "snd (cluster_loop [] [m] ms') \<noteq> []"
    by (rule cluster_loop_current) simp
  ultimately show ?thesis
    using c Cons by (auto simp: cluster_sorted_Cons)
qed

lemma cluster_sorted_near: "c \<in> set (cluster_sorted ms) \<Longrightarrow> successively near c"
proof (cases ms)
  case Nil
  assume "c \<in> set (cluster_sorted ms)"
  with Nil show ?thesis by (simp add: cluster_sorted_Nil)
next
  case (Cons m ms')
  assume c: "c \<in> set (cluster_sorted ms)"
  have "(\<forall>c\<in>set (fst (cluster_loop [] [m] ms')). successively near c) \<and>
        successively near (snd (cluster_loop [] [m] ms'))"
    by (rule cluster_loop_near) simp_all
  then show ?thesis
    using c Cons by (auto simp: cluster_sorted_Cons)
qed

lemma cluster_sorted_far: "successively far (cluster_sorted ms)"
proof (cases ms)
  case Nil
  then show ?thesis by (simp add: cluster_sorted_Nil)
next
  case (Cons m ms')
  have "successively far (fst (cluster_loop [] [m] ms') @ [snd (cluster_loop [] [m] ms')])"
    by (rule cluster_loop_far) simp_all
  then show ?thesis
    using Cons by (simp add: cluster_sorted_Cons)
qed

lemma sorted_concat_part:
  "sorted (map f (concat cs)) \<Longrightarrow> c \<in> set cs \<Longrightarrow> sorted (map f c)"
  by (induction cs) (auto simp: sorted_append)

lemma collect_matches_summaries:
  "collect_matches rs = Inr ms \<Longrightarrow> map summary_of (filter is_tournament rs) = map Inr ms"
proof (induction rs arbitrary: ms)
  case Nil
  then show ?case by simp
next
  case (Cons r rs)
  from Cons.prems obtain a where a: "attributes r = Some a"
    by (cases "attributes r") simp_all
  show ?case
  proof (cases "raw_mode a = Some ''tournament''")
    case True
    with Cons.prems a obtain m ms' where
      m: "summarise r a = Inr m" and ms': "collect_matches rs = Inr ms'" and ms: "ms = m # ms'"
      by (auto simp: ebind_Inr)
    show ?thesis
      using Cons.IH [OF ms'] a True m ms by (simp add: summary_of_def is_tournament_def)
  next
    case False
    with Cons.prems a have "collect_matches rs = Inr ms" by simp
    from Cons.IH [OF this] show ?thesis
      using a False by (simp add: is_tournament_def)
  qed
qed

lemma cluster_tournament_matches_Inr:
  "cluster_tournament_matches d = Inr cs \<longleftrightarrow>
   (\<exists>ms. collect_matches (matches d) = Inr ms \<and> cs = cluster_sorted (sort_key timestamp ms))"
  by (auto simp: cluster_tournament_matches_def ebind_Inr)

text \<open>
  Claim C3. When the tournament-mode entries of the feed can be read, the clusterer returns;
  its clusters, one after the other, are the summaries \<open>ms\<close> of exactly the
  tournament-mode entries, stably sorted by timestamp. So every match is in the output as
  often as in the input (a permutation; with distinct inputs, once in one cluster), every
  cluster is non-empty and ascending by timestamp, the clusters follow each other in
  timestamp order, no match gives no cluster and one match gives one cluster of one element.
\<close>

theorem cluster_partition:
  assumes "collect_matches (matches d) = Inr ms"
  shows "\<exists>cs. cluster_tournament_matches d = Inr cs \<and>
           map summary_of (filter is_tournament (matches d)) = map Inr ms \<and>
           concat cs = sort_key timestamp ms \<and>
           mset (concat cs) = mset ms \<and>
           (distinct ms \<longrightarrow> distinct (concat cs)) \<and>
           (\<forall>c\<in>set cs. c \<noteq> [] \<and> sorted (map timestamp c)) \<and>
           sorted (map timestamp (concat cs)) \<and>
           (ms = [] \<longrightarrow> cs = []) \<and>
           (\<forall>m. ms = [m] \<longrightarrow> cs = [[m]])"
proof -
  define cs where "cs = cluster_sorted (sort_key timestamp ms)"
  have run: "cluster_tournament_matches d = Inr cs"
    using assms by (simp add: cluster_tournament_matches_Inr cs_def)
  have cat: "concat cs = sort_key timestamp ms"
    by (simp add: cs_def concat_cluster_sorted)
  have srt: "sorted (map timestamp (concat cs))"
    by (simp add: cat)
  have parts: "\<forall>c\<in>set cs. c \<noteq> [] \<and> sorted (map timestamp c)"
    using srt sorted_concat_part [of timestamp cs] cluster_sorted_nonempty [of _ "sort_key timestamp ms"]
    by (auto simp: cs_def)
  have ms: "mset (concat cs) = mset ms"
    by (simp add: cat)
  have dist: "distinct ms \<longrightarrow> distinct (concat cs)"
    using ms by (metis mset_eq_imp_distinct_iff)
  have empty: "ms = [] \<longrightarrow> cs = []"
    by (simp add: cs_def cluster_sorted_Nil)
  have single: "\<forall>m. ms = [m] \<longrightarrow> cs = [[m]]"
    by (simp add: cs_def cluster_sorted_Cons)
  show ?thesis
    using run collect_matches_summaries [OF assms] cat ms dist parts srt empty single by blast
qed

text \<open>
  Claim C4. In every output of the clusterer, two neighbours in a cluster are at most 24
  hours apart (and in ascending order), and the first match of a cluster is more than 24
  hours after the last match of the cluster before it. For two matches: a gap of exactly
  24 hours or less keeps them in one cluster, a longer gap separates them.
\<close>

theorem cluster_gap:
  assumes "cluster_tournament_matches d = Inr cs"
  shows "(\<forall>c\<in>set cs. \<forall>i. Suc i < length c \<longrightarrow>
            0 \<le> timestamp (c ! Suc i) - timestamp (c ! i) \<and>
            timestamp (c ! Suc i) - timestamp (c ! i) \<le> day) \<and>
         (\<forall>j. Suc j < length cs \<longrightarrow>
            timestamp (hd (cs ! Suc j)) - timestamp (last (cs ! j)) > day) \<and>
         (\<forall>a b. collect_matches (matches d) = Inr [a, b] \<longrightarrow> timestamp a \<le> timestamp b \<longrightarrow>
            (timestamp b - timestamp a \<le> day \<longrightarrow> cs = [[a, b]]) \<and>
            (timestamp b - timestamp a > day \<longrightarrow> cs = [[a], [b]]))"
proof -
  from assms obtain ms where ms: "collect_matches (matches d) = Inr ms"
    and cs: "cs = cluster_sorted (sort_key timestamp ms)"
    by (auto simp: cluster_tournament_matches_Inr)
  have "sorted (map timestamp (concat cs))"
    by (simp add: cs concat_cluster_sorted)
  then have srt: "\<forall>c\<in>set cs. sorted (map timestamp c)"
    using sorted_concat_part [of timestamp cs] by blast
  have within: "\<forall>c\<in>set cs. \<forall>i. Suc i < length c \<longrightarrow>
            0 \<le> timestamp (c ! Suc i) - timestamp (c ! i) \<and>
            timestamp (c ! Suc i) - timestamp (c ! i) \<le> day"
  proof (intro ballI allI impI)
    fix c i
    assume c: "c \<in> set cs" and i: "Suc i < length c"
    have "successively near c"
      using c cluster_sorted_near cs by blast
    then have "near (c ! i) (c ! Suc i)"
      using i by (rule successively_nth)
    moreover have "sorted (map timestamp c)"
      using srt c by blast
    then have "timestamp (c ! i) \<le> timestamp (c ! Suc i)"
      using i by (simp add: sorted_iff_nth_Suc)
    ultimately show "0 \<le> timestamp (c ! Suc i) - timestamp (c ! i) \<and>
            timestamp (c ! Suc i) - timestamp (c ! i) \<le> day"
      by (simp add: near_def)
  qed
  have between: "\<forall>j. Suc j < length cs \<longrightarrow>
            timestamp (hd (cs ! Suc j)) - timestamp (last (cs ! j)) > day"
  proof (intro allI impI)
    fix j
    assume j: "Suc j < length cs"
    have "successively far cs"
      by (simp add: cs cluster_sorted_far)
    then have "far (cs ! j) (cs ! Suc j)"
      using j by (rule successively_nth)
    then show "timestamp (hd (cs ! Suc j)) - timestamp (last (cs ! j)) > day"
      by (simp add: far_def)
  qed
  have two: "\<forall>a b. collect_matches (matches d) = Inr [a, b] \<longrightarrow> timestamp a \<le> timestamp b \<longrightarrow>
            (timestamp b - timestamp a \<le> day \<longrightarrow> cs = [[a, b]]) \<and>
            (timestamp b - timestamp a > day \<longrightarrow> cs = [[a], [b]])"
    using ms cs by (auto simp: cluster_sorted_Cons)
  show ?thesis
    using within between two by blast
qed

lemma collect_scenario: "collect_matches (matches scenario) = Inr scenario_matches"
  by (simp add: scenario_def scenario_matches_def tournament_match_def summary_def summarise_def)

theorem cluster_partition_witness:
  "collect_matches (matches scenario) = Inr scenario_matches \<and>
   (\<exists>cs. cluster_tournament_matches scenario = Inr cs \<and>
      concat cs = sort_key timestamp scenario_matches \<and>
      mset (concat cs) = mset scenario_matches \<and>
      sorted (map timestamp (concat cs)))"
proof -
  have h: "collect_matches (matches scenario) = Inr scenario_matches"
    by (rule collect_scenario)
  from cluster_partition [OF h] show ?thesis
    using h by blast
qed

lemma cluster_on_boundary:
  "cluster_tournament_matches on_boundary =
     Inr [[summary ''m1'' 0 600 [], summary ''m2'' day 600 []]]"
  by (simp add: cluster_tournament_matches_def on_boundary_def tournament_match_def
      summarise_def cluster_sorted_def summary_def day_def)

lemma cluster_past_boundary:
  "cluster_tournament_matches past_boundary =
     Inr [[summary ''m1'' 0 600 []], [summary ''m2'' (day + 1) 600 []]]"
  by (simp add: cluster_tournament_matches_def past_boundary_def tournament_match_def
      summarise_def cluster_sorted_def summary_def day_def)

theorem cluster_gap_witness:
  "cluster_tournament_matches on_boundary =
     Inr [[summary ''m1'' 0 600 [], summary ''m2'' day 600 []]] \<and>
   timestamp (summary ''m2'' day 600 []) - timestamp (summary ''m1'' 0 600 []) \<le> day \<and>
   cluster_tournament_matches past_boundary =
     Inr [[summary ''m1'' 0 600 []], [summary ''m2'' (day + 1) 600 []]] \<and>
   timestamp (summary ''m2'' (day + 1) 600 []) - timestamp (summary ''m1'' 0 600 []) > day"
proof -
  note on = cluster_gap [OF cluster_on_boundary]
  note past = cluster_gap [OF cluster_past_boundary]
  from on have "timestamp ([summary ''m1'' 0 600 [], summary ''m2'' day 600 []] ! Suc 0) -
      timestamp ([summary ''m1'' 0 600 [], summary ''m2'' day 600 []] ! 0) \<le> day"
    by simp
  moreover from past have "timestamp (hd ([[summary ''m1'' 0 600 []], [summary ''m2'' (day + 1) 600 []]] ! Suc 0)) -
      timestamp (last ([[summary ''m1'' 0 600 []], [summary ''m2'' (day + 1) 600 []]] ! 0)) > day"
    by simp
  ultimately show ?thesis
    using cluster_on_boundary cluster_past_boundary by simp
qed

section \<open>The scenario of three matches\<close>

lemma cluster_scenario:
  "cluster_tournament_matches scenario =
     Inr [[summary ''m1'' 0 600 [overview_segment ''Ace'' 0 ''win'' 10 2 3],
           summary ''m2'' hour 900 [overview_segment ''Ace'' 0 ''loss'' 4 6 1]],
          [summary ''m3'' (31 * hour) 300 [overview_segment ''Ace'' 0 ''win'' 1 1 1]]]"
  by (simp add: cluster_tournament_matches_def collect_scenario scenario_matches_def
      cluster_sorted_def summary_def hour_def day_def)

lemma scenario_ign: "ign scenario = Some ''Ace''"
  by (simp add: scenario_def)

lemma team_scenario: "find_player_team (Some ''Ace'') (matches scenario) = Inr (Some 0)"
  by (simp add: scenario_def tournament_match_def overview_segment_def handle_of_def)

lemma fallback_one:
  "fallback_stats 0 [] [] [overview_segment ''Ace'' 0 r k d a] =
     Inr ([\<lparr>name = ''Ace'', team_id = Some 0, result = r, heroes = [''Hulk''],
            is_mvp = None, is_svp = None,
            nums = [''kills'' \<mapsto> k, ''deaths'' \<mapsto> d, ''assists'' \<mapsto> a, ''kdaRatio'' \<mapsto> (k + a) / d,
                    ''totalHeroDamage'' \<mapsto> 12000, ''totalHeroHeal'' \<mapsto> 0]\<rparr>], [])"
  by (simp add: overview_segment_def overview_info_def stat_value_def stat_value_or_0_def heroes_of_def)

lemma scenario_run:
  "\<exists>t1 t2 st. analyze_tournaments no_detail scenario () = (Inr [t1, t2], ()) \<and>
      match_count t1 = 2 \<and> match_count t2 = 1 \<and>
      map_of (player_stats t1) ''Ace'' = Some st \<and>
      matches_played st = 2 \<and> wins st = 1 \<and> losses st = 1 \<and>
      derived st ''win_rate'' = Some 50 \<and>
      derived st ''avg_kills'' = Some 7 \<and>
      total_kills_sum st = 14 \<and> total_minutes st = 25 \<and>
      derived st ''avg_kills_per_10'' = Some (14 / 25 * 10) \<and>
      derived st ''avg_kills_per_10'' = Some (56 / 10)"
  by (simp add: analyze_tournaments_def team_scenario cluster_scenario analyze_tournament_def
      no_detail_def fold_match_def summary_def fallback_one update_player_def stats_of_def
      new_stats_def index_def score_of_def finalize_def get_def map_add_def match_result_def
      scenario_ign del: fallback_stats.simps)

text \<open>
  Claim C2. On the three matches of \<open>scenario\<close> the clusterer gives two tournaments, of
  the matches \<open>m1, m2\<close> and of \<open>m3\<close>. In the aggregate of the first, the player, who won
  \<open>m1\<close> (10 kills, 600 seconds) and lost \<open>m2\<close> (4 kills, 900 seconds), has 2 matches
  played, 1 win, 1 loss, a win rate of 50, 7 kills on average and, from 14 kills in 25
  minutes, 5.6 kills per 10 minutes.
\<close>

theorem end_to_end_scenario:
  "(\<exists>c1 c2. cluster_tournament_matches scenario = Inr [c1, c2] \<and>
      map match_id c1 = [''m1'', ''m2''] \<and> map match_id c2 = [''m3'']) \<and>
   (\<exists>t1 t2 st. analyze_tournaments no_detail scenario () = (Inr [t1, t2], ()) \<and>
      match_count t1 = 2 \<and> match_count t2 = 1 \<and>
      map_of (player_stats t1) ''Ace'' = Some st \<and>
      matches_played st = 2 \<and> wins st = 1 \<and> losses st = 1 \<and>
      derived st ''win_rate'' = Some 50 \<and>
      derived st ''avg_kills'' = Some 7 \<and>
      total_kills_sum st = 14 \<and> total_minutes st = 25 \<and>
      derived st ''avg_kills_per_10'' = Some (14 / 25 * 10) \<and>
      derived st ''avg_kills_per_10'' = Some (56 / 10))"
proof -
  have clusters: "\<exists>c1 c2. cluster_tournament_matches scenario = Inr [c1, c2] \<and>
      map match_id c1 = [''m1'', ''m2''] \<and> map match_id c2 = [''m3'']"
    by (simp add: cluster_scenario summary_def)
  have run: "\<exists>t1 t2 st. analyze_tournaments no_detail scenario () = (Inr [t1, t2], ()) \<and>
      match_count t1 = 2 \<and> match_count t2 = 1 \<and>
      map_of (player_stats t1) ''Ace'' = Some st \<and>
      matches_played st = 2 \<and> wins st = 1 \<and> losses st = 1 \<and>
      derived st ''win_rate'' = Some 50 \<and>
      derived st ''avg_kills'' = Some 7 \<and>
      total_kills_sum st = 14 \<and> total_minutes st = 25 \<and>
      derived st ''avg_kills_per_10'' = Some (14 / 25 * 10) \<and>
      derived st ''avg_kills_per_10'' = Some (56 / 10)"
    by (rule scenario_run)
  show ?thesis
    using clusters run by blast
qed

section \<open>Kill participation\<close>

lemma get_put [simp]: "get (put k v p) k' = (if k' = k then v else get p k')"
  by (simp add: get_def put_def)

lemma put_fields [simp]:
  "name (put k v p) = name p" "team_id (put k v p) = team_id p" "result (put k v p) = result p"
  "heroes (put k v p) = heroes p" "is_mvp (put k v p) = is_mvp p" "is_svp (put k v p) = is_svp p"
  by (simp_all add: put_def)

lemma build_player_info_kp:
  "build_player_info dur s = Inr p \<Longrightarrow> get p ''kill_participation'' = 0"
  by (auto simp: build_player_info_def ebind_Inr)

lemma split_segments_all:
  assumes build: "\<And>s p. build_player_info dur s = Inr p \<Longrightarrow> Q p"
  shows "split_segments dur mt ta oa segs = Inr (t0, o0) \<Longrightarrow>
         \<forall>p\<in>set ta. Q p \<Longrightarrow> \<forall>p\<in>set oa. Q p \<Longrightarrow> (\<forall>p\<in>set t0. Q p) \<and> (\<forall>p\<in>set o0. Q p)"
proof (induction segs arbitrary: ta oa)
  case Nil
  then show ?case by simp
next
  case (Cons s segs)
  show ?case
  proof (cases "seg_type s = Some ''player''")
    case False
    with Cons.prems(1) have "split_segments dur mt ta oa segs = Inr (t0, o0)" by simp
    from Cons.IH [OF this Cons.prems(2,3)] show ?thesis .
  next
    case True
    with Cons.prems(1) obtain p where p: "build_player_info dur s = Inr p"
      and rest: "(if mt \<noteq> None \<and> team_id p = mt
                  then split_segments dur mt (ta @ [p]) oa segs
                  else split_segments dur mt ta (oa @ [p]) segs) = Inr (t0, o0)"
      by (auto simp: ebind_Inr)
    have Qp: "Q p" using build p by blast
    show ?thesis
    proof (cases "mt \<noteq> None \<and> team_id p = mt")
      case True
      with rest have r: "split_segments dur mt (ta @ [p]) oa segs = Inr (t0, o0)" by simp
      have "\<forall>q\<in>set (ta @ [p]). Q q" using Cons.prems(2) Qp by simp
      from Cons.IH [OF r this Cons.prems(3)] show ?thesis .
    next
      case False
      with rest have r: "split_segments dur mt ta (oa @ [p]) segs = Inr (t0, o0)" by auto
      have "\<forall>q\<in>set (oa @ [p]). Q q" using Cons.prems(3) Qp by simp
      from Cons.IH [OF r Cons.prems(2) this] show ?thesis .
    qed
  qed
qed

lemma extract_player_stats_Inr:
  assumes "extract_player_stats dm player_ign = Inr (team, opp)"
  obtains dur mt t0 o0 where
    "split_segments dur mt [] [] (dm_segments dm) = Inr (t0, o0)"
    "team = kill_participation t0" "opp = kill_participation o0"
  using assms by (auto simp: extract_player_stats_def ebind_Inr Let_def)

lemma total_kills_backfill: "total_kills (kill_participation g) = total_kills g"
  by (simp add: kill_participation_def total_kills_def comp_def)

lemma total_assists_backfill: "total_assists (kill_participation g) = total_assists g"
  by (simp add: kill_participation_def total_assists_def comp_def)

lemma backfill_member:
  assumes "\<forall>q\<in>set g. get q ''kill_participation'' = 0" "p \<in> set (kill_participation g)"
  shows "(total_kills g \<noteq> 0 \<longrightarrow>
            get p ''kill_participation'' =
              ((get p ''kills'' + get p ''assists'') / total_kills g) * 100) \<and>
         (total_kills g = 0 \<longrightarrow> get p ''kill_participation'' = 0)"
  using assms by (auto simp: kill_participation_def)

lemma sum_list_scaled:
  "sum_list (map (\<lambda>p. ((f p + h p) / c) * 100) g) =
   ((sum_list (map f g) + sum_list (map h g)) / c) * (100::rat)"
  by (induction g) (simp_all add: add_divide_distrib distrib_right)

lemma backfill_sum:
  assumes "total_kills g \<noteq> 0"
  shows "sum_list (map (\<lambda>p. get p ''kill_participation'') (kill_participation g)) =
         ((total_kills g + total_assists g) / total_kills g) * 100"
proof -
  have "map (\<lambda>p. get p ''kill_participation'') (kill_participation g) =
        map (\<lambda>p. ((get p ''kills'' + get p ''assists'') / total_kills g) * 100) g"
    using assms by (simp add: kill_participation_def comp_def)
  then show ?thesis
    by (simp only: sum_list_scaled total_kills_def total_assists_def)
qed


lemma copy_player_segment:
  "copy_stats [''kills'' \<mapsto> Some k, ''assists'' \<mapsto> Some a] stat_keys p =
     put ''assists'' a (put ''kills'' k p)"
  by (simp add: stat_keys_def)

lemma build_player_segment:
  "build_player_info 600 (player_segment h t k a) =
     Inr (put ''kill_participation'' 0 (add_accuracy (add_per_10 600
       (put ''assists'' a (put ''kills'' k
          \<lparr>name = h, team_id = Some t, result = ''win'', heroes = [''Storm''],
           is_mvp = Some False, is_svp = Some False, nums = Map.empty\<rparr>)))))"
  by (simp add: build_player_info_def player_segment_def copy_player_segment heroes_of_def
      del: copy_stats.simps)

lemma main_trio: "main_team_of (Some ''Ace'') (dm_segments trio) = Inr (Some 0)"
  by (simp add: trio_def player_segment_def handle_of_def)

lemma get_add_accuracy: "k \<noteq> ''accuracy'' \<Longrightarrow> get (add_accuracy p) k = get p k"
  by (simp add: add_accuracy_def)
lemma get_add_per_10:
  "k \<in> {''kills'', ''assists'', ''kill_participation''} \<Longrightarrow> get (add_per_10 d p) k = get p k"
  by (auto simp: add_per_10_def)
lemma fields_add [simp]:
  "name (add_accuracy p) = name p" "team_id (add_accuracy p) = team_id p"
  "name (add_per_10 d p) = name p" "team_id (add_per_10 d p) = team_id p"
  by (simp_all add: add_accuracy_def add_per_10_def)

lemma player_segment_seg_type: "seg_type (player_segment h t k a) = Some ''player''"
  by (simp add: player_segment_def)

lemma extract_trio:
  "\<exists>team opp. extract_player_stats trio (Some ''Ace'') = Inr (team, opp) \<and>
     map (\<lambda>p. get p ''kills'') team = [5, 3, 2] \<and>
     map (\<lambda>p. get p ''assists'') team = [1, 0, 0] \<and>
     map (\<lambda>p. get p ''kill_participation'') team = [60, 30, 20]"
  by (simp add: extract_player_stats_def main_trio)
     (simp add: trio_def build_player_segment player_segment_seg_type
      kill_participation_def total_kills_def get_add_accuracy get_add_per_10)

lemma main_duo: "main_team_of (Some ''Ace'') (dm_segments duo) = Inr (Some 0)"
  by (simp add: duo_def player_segment_def handle_of_def)

lemma extract_duo:
  "\<exists>team opp. extract_player_stats duo (Some ''Ace'') = Inr (team, opp) \<and>
     map (\<lambda>p. get p ''kills'') team = [5, 5] \<and>
     map (\<lambda>p. get p ''assists'') team = [6, 0] \<and>
     map (\<lambda>p. get p ''kill_participation'') team = [110, 50]"
  by (simp add: extract_player_stats_def main_duo)
     (simp add: duo_def build_player_segment player_segment_seg_type
      kill_participation_def total_kills_def get_add_accuracy get_add_per_10)

lemma extracted_groups:
  assumes "extract_player_stats dm player_ign = Inr (team, opp)" "grp = team \<or> grp = opp"
  obtains g where "grp = kill_participation g" "\<forall>q\<in>set g. get q ''kill_participation'' = 0"
proof -
  from assms(1) obtain dur mt t0 o0 where
    split: "split_segments dur mt [] [] (dm_segments dm) = Inr (t0, o0)"
    and team: "team = kill_participation t0" and opp: "opp = kill_participation o0"
    by (rule extract_player_stats_Inr)
  have "(\<forall>p\<in>set t0. get p ''kill_participation'' = 0) \<and>
        (\<forall>p\<in>set o0. get p ''kill_participation'' = 0)"
    by (rule split_segments_all [OF _ split]) (simp_all add: build_player_info_kp)
  then show ?thesis
    using that assms(2) team opp by blast
qed

text \<open>
  Claim C6. In both lists that the extractor returns, each taken alone: when the kills of
  the list sum to more than 0, every member's \<open>kill_participation\<close> is 100 times its kills
  plus assists over that sum; when they sum to 0, it is 0. The team with kills 5, 3, 2 and
  assists 1, 0, 0 gets 60, 30, 20.
\<close>

theorem kill_participation_backfill:
  "(\<forall>dm player_ign team opp grp p.
      extract_player_stats dm player_ign = Inr (team, opp) \<longrightarrow>
      grp = team \<or> grp = opp \<longrightarrow> p \<in> set grp \<longrightarrow>
      (0 < total_kills grp \<longrightarrow>
         get p ''kill_participation'' =
           100 * (get p ''kills'' + get p ''assists'') / total_kills grp) \<and>
      (total_kills grp = 0 \<longrightarrow> get p ''kill_participation'' = 0)) \<and>
   (\<exists>team opp. extract_player_stats trio (Some ''Ace'') = Inr (team, opp) \<and>
      map (\<lambda>p. get p ''kills'') team = [5, 3, 2] \<and>
      map (\<lambda>p. get p ''assists'') team = [1, 0, 0] \<and>
      map (\<lambda>p. get p ''kill_participation'') team = [60, 30, 20])"
proof (intro conjI allI impI)
  fix dm player_ign team opp grp p
  assume ex: "extract_player_stats dm player_ign = Inr (team, opp)"
    and grp: "grp = team \<or> grp = opp" and p: "p \<in> set grp"
  from ex grp obtain g where g: "grp = kill_participation g"
    and zero: "\<forall>q\<in>set g. get q ''kill_participation'' = 0"
    by (rule extracted_groups)
  have tk: "total_kills grp = total_kills g"
    by (simp add: g total_kills_backfill)
  note member = backfill_member [OF zero p [unfolded g]]
  {
    assume "0 < total_kills grp"
    then show "get p ''kill_participation'' =
           100 * (get p ''kills'' + get p ''assists'') / total_kills grp"
      using member tk by simp
  }
  {
    assume "total_kills grp = 0"
    then show "get p ''kill_participation'' = 0"
      using member tk by simp
  }
next
  show "\<exists>team opp. extract_player_stats trio (Some ''Ace'') = Inr (team, opp) \<and>
      map (\<lambda>p. get p ''kills'') team = [5, 3, 2] \<and>
      map (\<lambda>p. get p ''assists'') team = [1, 0, 0] \<and>
      map (\<lambda>p. get p ''kill_participation'') team = [60, 30, 20]"
    by (rule extract_trio)
qed

theorem kill_participation_backfill_witness:
  "\<exists>team opp p. extract_player_stats trio (Some ''Ace'') = Inr (team, opp) \<and>
     p \<in> set team \<and> 0 < total_kills team \<and>
     get p ''kill_participation'' =
       100 * (get p ''kills'' + get p ''assists'') / total_kills team"
proof -
  from extract_trio obtain team opp where
    ex: "extract_player_stats trio (Some ''Ace'') = Inr (team, opp)"
    and kills: "map (\<lambda>p. get p ''kills'') team = [5, 3, 2]"
    by (elim exE conjE)
  from kills have pos: "0 < total_kills team"
    by (simp add: total_kills_def)
  from kills have "team \<noteq> []" by auto
  then have p: "hd team \<in> set team" by simp
  from kill_participation_backfill ex p pos
  have "get (hd team) ''kill_participation'' =
       100 * (get (hd team) ''kills'' + get (hd team) ''assists'') / total_kills team"
    by blast
  with ex p pos show ?thesis by blast
qed

text \<open>
  Claim C9. \<open>kill_participation\<close> is not bounded by 100. In a list that the extractor
  returns, with a kill sum \<open>K > 0\<close> and an assist sum \<open>A\<close>, the values sum to
  \<open>100 (K + A) / K\<close>, which is above 100 as soon as \<open>A > 0\<close>; and a player with 5 kills
  and 6 assists in a team with 10 kills has 110.
\<close>

theorem kill_participation_unbounded:
  "(\<forall>dm player_ign team opp grp.
      extract_player_stats dm player_ign = Inr (team, opp) \<longrightarrow>
      grp = team \<or> grp = opp \<longrightarrow> 0 < total_kills grp \<longrightarrow>
      sum_list (map (\<lambda>p. get p ''kill_participation'') grp) =
        100 * (total_kills grp + total_assists grp) / total_kills grp \<and>
      (0 < total_assists grp \<longrightarrow>
         100 < sum_list (map (\<lambda>p. get p ''kill_participation'') grp))) \<and>
   (\<exists>team opp p. extract_player_stats duo (Some ''Ace'') = Inr (team, opp) \<and>
      p \<in> set team \<and> get p ''kills'' = 5 \<and> get p ''assists'' = 6 \<and>
      total_kills team = 10 \<and> get p ''kill_participation'' = 110 \<and>
      100 < get p ''kill_participation'')"
proof (intro conjI allI impI)
  fix dm player_ign team opp grp
  assume ex: "extract_player_stats dm player_ign = Inr (team, opp)"
    and grp: "grp = team \<or> grp = opp" and pos: "0 < total_kills grp"
  from ex grp obtain g where g: "grp = kill_participation g"
    by (rule extracted_groups)
  have tk: "total_kills grp = total_kills g" and ta: "total_assists grp = total_assists g"
    by (simp_all add: g total_kills_backfill total_assists_backfill)
  from pos tk have "total_kills g \<noteq> 0" by simp
  from backfill_sum [OF this]
  show total: "sum_list (map (\<lambda>p. get p ''kill_participation'') grp) =
        100 * (total_kills grp + total_assists grp) / total_kills grp"
    by (simp add: g tk [unfolded g] ta [unfolded g])
  {
    assume "0 < total_assists grp"
    with pos have "100 < 100 * (total_kills grp + total_assists grp) / total_kills grp"
      by (simp add: pos_less_divide_eq)
    then show "100 < sum_list (map (\<lambda>p. get p ''kill_participation'') grp)"
      by (simp only: total)
  }
next
  from extract_duo obtain team opp where
    ex: "extract_player_stats duo (Some ''Ace'') = Inr (team, opp)"
    and kills: "map (\<lambda>p. get p ''kills'') team = [5, 5]"
    and assists: "map (\<lambda>p. get p ''assists'') team = [6, 0]"
    and kp: "map (\<lambda>p. get p ''kill_participation'') team = [110, 50]"
    by (elim exE conjE)
  from kills have tk: "total_kills team = 10" by (simp add: total_kills_def)
  from kills obtain p q where team: "team = [p, q]" by auto
  with kills assists kp
  have "get p ''kills'' = 5" "get p ''assists'' = 6" "get p ''kill_participation'' = 110"
    by simp_all
  with ex tk team
  show "\<exists>team opp p. extract_player_stats duo (Some ''Ace'') = Inr (team, opp) \<and>
      p \<in> set team \<and> get p ''kills'' = 5 \<and> get p ''assists'' = 6 \<and>
      total_kills team = 10 \<and> get p ''kill_participation'' = 110 \<and>
      100 < get p ''kill_participation''"
    by auto
qed

theorem kill_participation_unbounded_witness:
  "\<exists>team opp. extract_player_stats duo (Some ''Ace'') = Inr (team, opp) \<and>
     0 < total_kills team \<and> 0 < total_assists team \<and>
     100 < sum_list (map (\<lambda>p. get p ''kill_participation'') team)"
proof -
  from extract_duo obtain team opp where
    ex: "extract_player_stats duo (Some ''Ace'') = Inr (team, opp)"
    and kills: "map (\<lambda>p. get p ''kills'') team = [5, 5]"
    and assists: "map (\<lambda>p. get p ''assists'') team = [6, 0]"
    by (elim exE conjE)
  from kills have tk: "0 < total_kills team" by (simp add: total_kills_def)
  from assists have ta: "0 < total_assists team" by (simp add: total_assists_def)
  from kill_participation_unbounded ex tk ta
  have "100 < sum_list (map (\<lambda>p. get p ''kill_participation'') team)"
    by blast
  with ex tk ta show ?thesis by blast
qed

section \<open>Invariants of the aggregation\<close>

text \<open>
  A property \<open>J\<close> of the tournament under construction that the initial one has and
  that folding one match keeps holds, before the finalisation, for every tournament of
  the output; \<open>done\<close> are the matches folded so far.
\<close>

lemma index_0: "index xs 0 = Inr h \<longleftrightarrow> xs \<noteq> [] \<and> h = hd xs"
  by (cases xs) (auto simp: index_def)

lemma update_player_fields:
  assumes "update_player mid dur st p = Inr st'"
  shows "heroes p \<noteq> []"
    and "matches_played st' = Suc (matches_played st)"
    and "wins st' = (if result p = ''win'' then Suc (wins st) else wins st)"
    and "losses st' = (if result p = ''win'' then losses st else Suc (losses st))"
    and "best_kda st' =
           (if get p ''kdaRatio'' > best_kda st then get p ''kdaRatio'' else best_kda st)"
    and "best_hero st' =
           (if get p ''kdaRatio'' > best_kda st then Some (hd (heroes p)) else best_hero st)"
    and "match_performances st' =
           match_performances st @ [snapshot mid dur (hd (heroes p)) p]"
    and "derived st' = derived st"
  using assms by (auto simp: update_player_def ebind_Inr index_0)

lemma stats_of_update:
  "stats_of (AList.update k v ps) n = (if n = k then v else stats_of ps n)"
  by (simp add: stats_of_def update_conv')

lemma stats_of_cases: "map_of ps n = Some (stats_of ps n) \<or> stats_of ps n = new_stats"
  by (cases "map_of ps n") (simp_all add: stats_of_def)

lemma update_team_entries:
  assumes step: "\<And>st p st'. R st \<or> st = new_stats \<Longrightarrow>
                   update_player mid dur st p = Inr st' \<Longrightarrow> R st'"
  shows "update_team mid dur ps team = Inr ps' \<Longrightarrow>
         \<forall>n st. map_of ps n = Some st \<longrightarrow> R st \<Longrightarrow>
         \<forall>n st. map_of ps' n = Some st \<longrightarrow> R st"
proof (induction team arbitrary: ps)
  case Nil
  then show ?case by simp
next
  case (Cons p rest)
  from Cons.prems(1) obtain st1 where
    up: "update_player mid dur (stats_of ps (name p)) p = Inr st1"
    and rest: "update_team mid dur (AList.update (name p) st1 ps) rest = Inr ps'"
    by (auto simp: ebind_Inr)
  have "R (stats_of ps (name p)) \<or> stats_of ps (name p) = new_stats"
    using stats_of_cases [of ps "name p"] Cons.prems(2) by blast
  then have "R st1"
    using up by (rule step)
  then have "\<forall>n st. map_of (AList.update (name p) st1 ps) n = Some st \<longrightarrow> R st"
    using Cons.prems(2) by (simp add: update_conv')
  with rest show ?case
    by (rule Cons.IH)
qed

lemma fold_match_Inr:
  assumes "fold_match player_ign pt dm m ti = Inr ti'"
  obtains team opp ps sc where
    "(case dm of Some d \<Rightarrow> extract_player_stats d player_ign
      | None \<Rightarrow> fallback_stats pt [] [] (segments m)) = Inr (team, opp)"
    "update_team (match_id m) (duration m) (player_stats ti) team = Inr ps"
    "player_stats ti' = ps"
    "ti_matches ti' = ti_matches ti @
       [\<lparr>mi_id = match_id m, mi_map = map_name m, mi_mode = map_mode m,
         mi_result = match_result player_ign (team @ opp),
         mi_duration = format_duration (duration m),
         duration_seconds = duration m, score = sc,
         mi_timestamp = timestamp m,
         team_stats = team, opponent_stats = opp\<rparr>]"
  using assms by (auto simp: fold_match_def ebind_Inr)

lemma process_matches_invariant:
  assumes step: "\<And>dm m done ti ti'. J done ti \<Longrightarrow>
                   fold_match player_ign pt dm m ti = Inr ti' \<Longrightarrow> J (done @ [m]) ti'"
  shows "fst (process_matches resolve player_ign pt ms w ti) = Inr ti' \<Longrightarrow> J done ti \<Longrightarrow>
         J (done @ ms) ti'"
proof (induction ms arbitrary: w ti "done")
  case Nil
  then show ?case by simp
next
  case (Cons m ms)
  obtain dm w1 where res: "resolve w (match_id m) = (dm, w1)"
    by (cases "resolve w (match_id m)")
  show ?case
  proof (cases "fold_match player_ign pt dm m ti")
    case (Inl e)
    with Cons.prems(1) res show ?thesis by simp
  next
    case (Inr ti1)
    with Cons.prems(1) res
    have run: "fst (process_matches resolve player_ign pt ms w1 ti1) = Inr ti'" by simp
    have "J (done @ [m]) ti1"
      using Cons.prems(2) Inr by (rule step)
    with run have "J ((done @ [m]) @ ms) ti'"
      by (rule Cons.IH)
    then show ?thesis by simp
  qed
qed

lemma analyze_tournament_invariant:
  assumes step: "\<And>dm m done ti ti'. J done ti \<Longrightarrow>
                   fold_match player_ign pt dm m ti = Inr ti' \<Longrightarrow> J (done @ [m]) ti'"
    and init: "\<And>ti0. ti_matches ti0 = [] \<Longrightarrow> player_stats ti0 = [] \<Longrightarrow> J [] ti0"
    and run: "fst (analyze_tournament resolve player_ign pt idx c w) = Inr ti"
  shows "\<exists>ti0. J c ti0 \<and> ti = finalize_all ti0"
proof (cases c)
  case Nil
  with run show ?thesis by (simp add: analyze_tournament_def)
next
  case (Cons m ms)
  define ti0 where "ti0 = \<lparr>ti_id = idx + 1, start_date = timestamp (hd c),
      end_date = timestamp (last c), match_count = length c, ti_matches = [],
      player_stats = []\<rparr>"
  obtain r w1 where pm: "process_matches resolve player_ign pt c w ti0 = (r, w1)"
    by (cases "process_matches resolve player_ign pt c w ti0")
  show ?thesis
  proof (cases r)
    case (Inl e)
    with run pm Cons show ?thesis
      by (simp add: analyze_tournament_def ti0_def)
  next
    case (Inr ti1)
    with run pm Cons have ti: "ti = finalize_all ti1"
      by (simp add: analyze_tournament_def ti0_def finalize_all_def)
    have "J [] ti0"
      by (rule init) (simp_all add: ti0_def)
    moreover have "fst (process_matches resolve player_ign pt c w ti0) = Inr ti1"
      using pm Inr by simp
    ultimately have "J ([] @ c) ti1"
      using process_matches_invariant [of J player_ign pt resolve c w ti0 ti1 "[]"] step
      by blast
    with ti show ?thesis by auto
  qed
qed

lemma analyze_loop_invariant:
  assumes step: "\<And>dm m done ti ti'. J done ti \<Longrightarrow>
                   fold_match player_ign pt dm m ti = Inr ti' \<Longrightarrow> J (done @ [m]) ti'"
    and init: "\<And>ti0. ti_matches ti0 = [] \<Longrightarrow> player_stats ti0 = [] \<Longrightarrow> J [] ti0"
  shows "fst (analyze_loop resolve player_ign pt idx cs w res) = Inr tis \<Longrightarrow> ti \<in> set tis \<Longrightarrow>
         ti \<in> set res \<or> (\<exists>c\<in>set cs. \<exists>ti0. J c ti0 \<and> ti = finalize_all ti0)"
proof (induction cs arbitrary: idx w res)
  case Nil
  then show ?case by simp
next
  case (Cons c cs)
  obtain r w1 where at: "analyze_tournament resolve player_ign pt idx c w = (r, w1)"
    by (cases "analyze_tournament resolve player_ign pt idx c w")
  show ?case
  proof (cases r)
    case (Inl e)
    with Cons.prems(1) at show ?thesis by simp
  next
    case (Inr t)
    with Cons.prems(1) at
    have run: "fst (analyze_loop resolve player_ign pt (idx + 1) cs w1 (res @ [t])) = Inr tis"
      by simp
    from Cons.IH [OF run Cons.prems(2)]
    have "ti \<in> set (res @ [t]) \<or> (\<exists>c\<in>set cs. \<exists>ti0. J c ti0 \<and> ti = finalize_all ti0)" .
    moreover have "\<exists>ti0. J c ti0 \<and> t = finalize_all ti0"
      using analyze_tournament_invariant [of J player_ign pt resolve idx c w t] step init at Inr
      by simp
    ultimately show ?thesis by auto
  qed
qed

lemma analyze_tournaments_invariant:
  assumes step: "\<And>pt dm m done ti ti'. J done ti \<Longrightarrow>
                   fold_match (ign d) pt dm m ti = Inr ti' \<Longrightarrow> J (done @ [m]) ti'"
    and init: "\<And>ti0. ti_matches ti0 = [] \<Longrightarrow> player_stats ti0 = [] \<Longrightarrow> J [] ti0"
    and run: "fst (analyze_tournaments resolve d w) = Inr tis" and ti: "ti \<in> set tis"
  obtains cs c ti0 where "cluster_tournament_matches d = Inr cs" "c \<in> set cs" "J c ti0"
    "ti = finalize_all ti0"
proof -
  from run obtain pt cs where cs: "cluster_tournament_matches d = Inr cs"
    and loop: "fst (analyze_loop resolve (ign d) pt 0 cs w []) = Inr tis"
    by (auto simp: analyze_tournaments_def split: sum.splits option.splits)
  have "ti \<in> set [] \<or> (\<exists>c\<in>set cs. \<exists>ti0. J c ti0 \<and> ti = finalize_all ti0)"
    using analyze_loop_invariant [of J "ign d" pt resolve 0 cs w "[]" tis ti] step init loop ti
    by blast
  then show ?thesis
    using that cs by auto
qed

lemma finalize_fields [simp]:
  "matches_played (finalize st) = matches_played st" "wins (finalize st) = wins st"
  "losses (finalize st) = losses st" "best_kda (finalize st) = best_kda st"
  "best_hero (finalize st) = best_hero st"
  "match_performances (finalize st) = match_performances st"
  by (simp_all add: finalize_def Let_def)

lemma map_of_finalize_all:
  "map_of (player_stats (finalize_all ti)) n = map_option finalize (map_of (player_stats ti) n)"
  by (simp add: finalize_all_def map_of_map)

lemma ti_matches_finalize_all [simp]: "ti_matches (finalize_all ti) = ti_matches ti"
  by (simp add: finalize_all_def)

lemma analyze_stats_invariant:
  assumes step: "\<And>mid dur st p st'. R st \<or> st = new_stats \<Longrightarrow>
                   update_player mid dur st p = Inr st' \<Longrightarrow> R st'"
    and run: "fst (analyze_tournaments resolve d w) = Inr tis" and ti: "ti \<in> set tis"
    and st: "map_of (player_stats ti) n = Some st"
  obtains st0 where "R st0" "st = finalize st0"
proof -
  define J where "J = (\<lambda>(done :: match list) (ti :: tournament_info). \<forall>n st. map_of (player_stats ti) n = Some st \<longrightarrow> R st)"
  have J_step: "J (done @ [m]) ti'"
    if "J done ti" and "fold_match (ign d) pt dm m ti = Inr ti'" for pt dm m "done" ti ti'
  proof -
    from that(2) obtain team ps where
      "update_team (match_id m) (duration m) (player_stats ti) team = Inr ps"
      "player_stats ti' = ps"
      by (rule fold_match_Inr)
    then show ?thesis
      using update_team_entries [of R "match_id m" "duration m" "player_stats ti" team ps]
        step that(1)
      unfolding J_def by blast
  qed
  have J_init: "J [] ti0" if "ti_matches ti0 = []" and "player_stats ti0 = []" for ti0
    using that by (simp add: J_def)
  from J_step J_init run ti obtain cs c ti0 where
    "cluster_tournament_matches d = Inr cs" "J c ti0" and "ti = finalize_all ti0"
    by (rule analyze_tournaments_invariant)
  with st obtain st0 where "map_of (player_stats ti0) n = Some st0" "st = finalize st0"
    by (auto simp: map_of_finalize_all)
  with \<open>J c ti0\<close> show ?thesis
    using that unfolding J_def by blast
qed

lemma snapshot_fields [simp]:
  "perf_match_id (snapshot mid dur h p) = mid" "hero (snapshot mid dur h p) = h"
  "perf_result (snapshot mid dur h p) = result p" "kda (snapshot mid dur h p) = get p ''kdaRatio''"
  by (simp_all add: snapshot_def)

lemma new_stats_fields [simp]:
  "matches_played new_stats = 0" "wins new_stats = 0" "losses new_stats = 0"
  "best_kda new_stats = 0" "best_hero new_stats = None" "match_performances new_stats = []"
  by (simp_all add: new_stats_def)

lemma Max_snoc:
  "Max (insert 0 (set (map f (xs @ [x])))) = max (Max (insert (0::rat) (set (map f xs)))) (f x)"
proof -
  have "insert 0 (set (map f (xs @ [x]))) = insert (f x) (insert 0 (set (map f xs)))"
    by auto
  then show ?thesis
    by (simp add: max.commute)
qed

lemma find_snoc:
  "find P (xs @ [x]) = (case find P xs of None \<Rightarrow> (if P x then Some x else None) | Some y \<Rightarrow> Some y)"
  by (induction xs) simp_all

lemma find_None_iff': "find P xs = None \<longleftrightarrow> (\<forall>x\<in>set xs. \<not> P x)"
  by (induction xs) simp_all

lemma best_ok_new: "best_ok new_stats"
  by (simp add: best_ok_def)

lemma best_ok_step:
  assumes ok: "best_ok st" and up: "update_player mid dur st p = Inr st'"
  shows "best_ok st'"
proof -
  let ?log = "match_performances st"
  let ?k = "get p ''kdaRatio''"
  let ?s = "snapshot mid dur (hd (heroes p)) p"
  note f = update_player_fields [OF up]
  have best: "best_kda st = Max (insert 0 (set (map kda ?log)))"
    and hero: "best_hero st = (if 0 < best_kda st
        then map_option hero (find (\<lambda>q. kda q = best_kda st) ?log) else None)"
    using ok by (simp_all add: best_ok_def)
  have fin: "finite (insert 0 (set (map kda ?log)))" by simp
  have nonneg: "0 \<le> best_kda st"
    unfolding best using fin by simp
  have upper: "kda q \<le> best_kda st" if "q \<in> set ?log" for q
    unfolding best using fin that by (intro Max_ge) auto
  have max': "Max (insert 0 (set (map kda (match_performances st')))) = max (best_kda st) ?k"
    by (simp only: f(7) Max_snoc best snapshot_fields)
  show ?thesis
  proof (cases "best_kda st < ?k")
    case True
    then have b': "best_kda st' = ?k" and h': "best_hero st' = Some (hd (heroes p))"
      using f(5,6) by simp_all
    have none: "find (\<lambda>q. kda q = ?k) ?log = None"
      using upper True by (force simp: find_None_iff')
    have "find (\<lambda>q. kda q = ?k) (match_performances st') = Some ?s"
      by (simp add: f(7) find_snoc none)
    moreover have "0 < ?k" using nonneg True by simp
    ultimately show ?thesis
      using True b' h' max' by (simp add: best_ok_def)
  next
    case False
    then have b': "best_kda st' = best_kda st" and h': "best_hero st' = best_hero st"
      using f(5,6) by simp_all
    have m: "max (best_kda st) ?k = best_kda st" using False by simp
    have "find (\<lambda>q. kda q = best_kda st) (match_performances st') =
          find (\<lambda>q. kda q = best_kda st) ?log" if pos: "0 < best_kda st"
    proof -
      have "best_kda st \<in> insert 0 (set (map kda ?log))"
        unfolding best using fin by (intro Max_in) auto
      with pos have "best_kda st \<in> set (map kda ?log)" by auto
      then have "find (\<lambda>q. kda q = best_kda st) ?log \<noteq> None"
        by (auto simp: find_None_iff')
      then show ?thesis
        by (auto simp: f(7) find_snoc)
    qed
    then show ?thesis
      using b' h' max' m hero by (simp add: best_ok_def)
  qed
qed

text \<open>
  Claim C7. One update of a player's aggregate replaces \<open>best_kda\<close> and \<open>best_hero\<close>
  only when the match's KDA ratio is strictly greater than the current best, so
  \<open>best_kda\<close> never decreases. In every aggregate of the output, \<open>best_kda\<close> is the maximum
  of 0 and the KDA ratios of the player's logged matches, and \<open>best_hero\<close>, when that
  maximum is above 0, is the hero of the first logged match that has it.
\<close>

theorem best_kda_running_max:
  "(\<forall>mid dur st p st'. update_player mid dur st p = Inr st' \<longrightarrow>
      (best_kda st < get p ''kdaRatio'' \<longrightarrow>
         best_kda st' = get p ''kdaRatio'' \<and> best_hero st' = Some (hd (heroes p))) \<and>
      (get p ''kdaRatio'' \<le> best_kda st \<longrightarrow>
         best_kda st' = best_kda st \<and> best_hero st' = best_hero st) \<and>
      best_kda st \<le> best_kda st') \<and>
   (\<forall>resolve d w tis ti n st.
      fst (analyze_tournaments resolve d w) = Inr tis \<longrightarrow> ti \<in> set tis \<longrightarrow>
      map_of (player_stats ti) n = Some st \<longrightarrow>
      best_kda st = Max (insert 0 (set (map kda (match_performances st)))) \<and>
      best_hero st =
        (if 0 < best_kda st
         then map_option hero (find (\<lambda>q. kda q = best_kda st) (match_performances st))
         else None))"
proof (intro conjI allI impI)
  fix mid dur st p st'
  assume up: "update_player mid dur st p = Inr st'"
  note f = update_player_fields [OF up]
  show "best_kda st \<le> best_kda st'"
    using f(5) by simp
  {
    assume "best_kda st < get p ''kdaRatio''"
    then show "best_kda st' = get p ''kdaRatio''" and "best_hero st' = Some (hd (heroes p))"
      using f(5,6) by simp_all
  }
  {
    assume "get p ''kdaRatio'' \<le> best_kda st"
    then show "best_kda st' = best_kda st" and "best_hero st' = best_hero st"
      using f(5,6) by simp_all
  }
next
  fix resolve :: "'w resolver" and d w tis ti n st
  assume run: "fst (analyze_tournaments resolve d w) = Inr tis" and ti: "ti \<in> set tis"
    and st: "map_of (player_stats ti) n = Some st"
  have step: "best_ok st'" if "best_ok st \<or> st = new_stats"
    and "update_player mid dur st p = Inr st'" for mid dur st p st'
    using that best_ok_new best_ok_step by blast
  from step run ti st obtain st0 where "best_ok st0" "st = finalize st0"
    by (rule analyze_stats_invariant)
  then have ok: "best_ok st"
    by (simp add: best_ok_def)
  from ok show "best_kda st = Max (insert 0 (set (map kda (match_performances st))))"
    by (simp add: best_ok_def)
  from ok show "best_hero st =
        (if 0 < best_kda st
         then map_option hero (find (\<lambda>q. kda q = best_kda st) (match_performances st))
         else None)"
    by (simp add: best_ok_def)
qed

lemma counts_ok_step:
  assumes "(counts_ok st \<and> 0 < matches_played st) \<or> st = new_stats"
    and up: "update_player mid dur st p = Inr st'"
  shows "counts_ok st' \<and> 0 < matches_played st'"
proof -
  note f = update_player_fields [OF up]
  from assms(1) have "counts_ok st"
    by (auto simp: counts_ok_def)
  then show ?thesis
    using f(2,3,4,7) by (simp add: counts_ok_def)
qed

lemma win_rate_finalize:
  "0 < matches_played st \<Longrightarrow>
   derived (finalize st) ''win_rate'' =
     Some (100 * rat_of_nat (wins st) / rat_of_nat (matches_played st))"
  by (simp add: finalize_def Let_def map_add_def)

text \<open>
  Claim C10. In every aggregate of the output, wins and losses add up to the matches
  played, of which there is at least one, and \<open>win_rate\<close> is 100 times the wins over the
  matches played. One update counts a win when the player's result is exactly \<open>win\<close> and
  a loss for every other result; so the wins are the logged matches with result \<open>win\<close>
  and the losses are all the other logged matches.
\<close>

theorem wins_and_losses:
  "(\<forall>mid dur st p st'. update_player mid dur st p = Inr st' \<longrightarrow>
      (result p = ''win'' \<longrightarrow> wins st' = wins st + 1 \<and> losses st' = losses st) \<and>
      (result p \<noteq> ''win'' \<longrightarrow> wins st' = wins st \<and> losses st' = losses st + 1)) \<and>
   (\<forall>resolve d w tis ti n st.
      fst (analyze_tournaments resolve d w) = Inr tis \<longrightarrow> ti \<in> set tis \<longrightarrow>
      map_of (player_stats ti) n = Some st \<longrightarrow>
      wins st + losses st = matches_played st \<and> 0 < matches_played st \<and>
      derived st ''win_rate'' =
        Some (100 * rat_of_nat (wins st) / rat_of_nat (matches_played st)) \<and>
      wins st = length (filter (\<lambda>q. perf_result q = ''win'') (match_performances st)) \<and>
      losses st = length (filter (\<lambda>q. perf_result q \<noteq> ''win'') (match_performances st)))"
proof (intro conjI allI impI)
  fix mid dur st p st'
  assume up: "update_player mid dur st p = Inr st'"
  note f = update_player_fields [OF up]
  {
    assume "result p = ''win''"
    then show "wins st' = wins st + 1" and "losses st' = losses st"
      using f(3,4) by simp_all
  }
  {
    assume "result p \<noteq> ''win''"
    then show "wins st' = wins st" and "losses st' = losses st + 1"
      using f(3,4) by simp_all
  }
next
  fix resolve :: "'w resolver" and d w tis ti n st
  assume run: "fst (analyze_tournaments resolve d w) = Inr tis" and ti: "ti \<in> set tis"
    and st: "map_of (player_stats ti) n = Some st"
  from counts_ok_step run ti st obtain st0 where
    ok: "counts_ok st0 \<and> 0 < matches_played st0" and fin: "st = finalize st0"
    by (rule analyze_stats_invariant)
  from ok fin show "wins st + losses st = matches_played st" and "0 < matches_played st"
    and "wins st = length (filter (\<lambda>q. perf_result q = ''win'') (match_performances st))"
    and "losses st = length (filter (\<lambda>q. perf_result q \<noteq> ''win'') (match_performances st))"
    by (simp_all add: counts_ok_def)
  from ok fin show "derived st ''win_rate'' =
        Some (100 * rat_of_nat (wins st) / rat_of_nat (matches_played st))"
    by (simp add: win_rate_finalize)
qed

lemma update_team_log:
  "update_team mid dur ps team = Inr ps' \<Longrightarrow>
   map perf_match_id (match_performances (stats_of ps' n)) =
   map perf_match_id (match_performances (stats_of ps n)) @
     replicate (length (filter (\<lambda>p. name p = n) team)) mid"
proof (induction team arbitrary: ps)
  case Nil
  then show ?case by simp
next
  case (Cons p rest)
  from Cons.prems obtain st1 where
    up: "update_player mid dur (stats_of ps (name p)) p = Inr st1"
    and rest: "update_team mid dur (AList.update (name p) st1 ps) rest = Inr ps'"
    by (auto simp: ebind_Inr)
  note f = update_player_fields [OF up]
  from Cons.IH [OF rest] show ?case
    by (simp add: stats_of_update f(7) replicate_append_same)
qed

lemma appearances_snoc:
  "appearances n (mis @ [mi]) =
   appearances n mis @ replicate (length (filter (\<lambda>p. name p = n) (team_stats mi))) mi"
  by (simp add: appearances_def)

lemma sorted_appearances:
  "sorted (map f mis) \<Longrightarrow> sorted (map f (appearances n mis))"
proof (induction mis)
  case Nil
  then show ?case by (simp add: appearances_def)
next
  case (Cons mi mis)
  have sub: "set (appearances n mis) \<subseteq> set mis"
    by (auto simp: appearances_def)
  have "appearances n (mi # mis) =
        replicate (length (filter (\<lambda>p. name p = n) (team_stats mi))) mi @ appearances n mis"
    by (simp add: appearances_def)
  moreover have "sorted (map f (appearances n mis))"
    using Cons by simp
  moreover have "\<forall>y\<in>set (appearances n mis). f mi \<le> f y"
    using Cons.prems sub by auto
  ultimately show ?case
    by (auto simp: sorted_append)
qed

lemma count_distinct_name:
  "distinct (map name ps) \<Longrightarrow>
   length (filter (\<lambda>p. name p = n) ps) = (if n \<in> name ` set ps then 1 else 0)"
  by (induction ps) auto

lemma appearances_distinct:
  "\<forall>mi\<in>set mis. distinct (map name (team_stats mi)) \<Longrightarrow>
   appearances n mis = filter (\<lambda>mi. n \<in> name ` set (team_stats mi)) mis"
proof (induction mis)
  case Nil
  then show ?case by (simp add: appearances_def)
next
  case (Cons mi mis)
  have "appearances n (mi # mis) =
        replicate (length (filter (\<lambda>p. name p = n) (team_stats mi))) mi @ appearances n mis"
    by (simp add: appearances_def)
  moreover have "appearances n mis = filter (\<lambda>mi. n \<in> name ` set (team_stats mi)) mis"
    using Cons by simp
  moreover have "length (filter (\<lambda>p. name p = n) (team_stats mi)) =
        (if n \<in> name ` set (team_stats mi) then 1 else 0)"
    using Cons.prems by (simp add: count_distinct_name)
  ultimately show ?case by simp
qed

lemma clusters_sorted:
  assumes "cluster_tournament_matches d = Inr cs" "c \<in> set cs"
  shows "sorted (map timestamp c)"
proof -
  from assms(1) obtain ms where cs: "cs = cluster_sorted (sort_key timestamp ms)"
    by (auto simp: cluster_tournament_matches_Inr)
  have "sorted (map timestamp (concat cs))"
    by (simp add: cs concat_cluster_sorted)
  then show ?thesis
    using assms(2) by (rule sorted_concat_part)
qed

text \<open>
  Claim C8. In every aggregate of the output, a player's \<open>match_performances\<close> has as many
  snapshots as \<open>matches_played\<close> counts; its match ids are, in this order, those of the
  matches of the tournament in which the player is on the team side (one for every
  occurrence of the name in the team list, so exactly one for each such match when the
  names of a team list are distinct); and these matches are in ascending order of
  timestamp. This holds for every resolver and every state of the world.
\<close>

theorem performance_log:
  assumes "fst (analyze_tournaments resolve d w) = Inr tis" and "ti \<in> set tis"
    and "map_of (player_stats ti) n = Some st"
  shows "length (match_performances st) = matches_played st \<and>
         map perf_match_id (match_performances st) = map mi_id (appearances n (ti_matches ti)) \<and>
         sorted (map mi_timestamp (appearances n (ti_matches ti))) \<and>
         sorted (map mi_timestamp (ti_matches ti)) \<and>
         ((\<forall>mi\<in>set (ti_matches ti). distinct (map name (team_stats mi))) \<longrightarrow>
            appearances n (ti_matches ti) =
              filter (\<lambda>mi. n \<in> name ` set (team_stats mi)) (ti_matches ti))"
proof -
  from counts_ok_step assms obtain st1 where
    "counts_ok st1 \<and> 0 < matches_played st1" and "st = finalize st1"
    by (rule analyze_stats_invariant)
  then have len: "length (match_performances st) = matches_played st"
    by (simp add: counts_ok_def)
  define J where "J = (\<lambda>(done :: match list) (ti :: tournament_info).
     map mi_timestamp (ti_matches ti) = map timestamp done \<and>
     (\<forall>n. map perf_match_id (match_performances (stats_of (player_stats ti) n)) =
          map mi_id (appearances n (ti_matches ti))))"
  have J_step: "J (done @ [m]) ti'"
    if J: "J done ti" and fm: "fold_match (ign d) pt dm m ti = Inr ti'" for pt dm m "done" ti ti'
  proof -
    from fm obtain team opp ps sc where
      up: "update_team (match_id m) (duration m) (player_stats ti) team = Inr ps"
      and ps: "player_stats ti' = ps"
      and ms: "ti_matches ti' = ti_matches ti @
       [\<lparr>mi_id = match_id m, mi_map = map_name m, mi_mode = map_mode m,
         mi_result = match_result (ign d) (team @ opp),
         mi_duration = format_duration (duration m),
         duration_seconds = duration m, score = sc,
         mi_timestamp = timestamp m,
         team_stats = team, opponent_stats = opp\<rparr>]"
      by (rule fold_match_Inr)
    show ?thesis
      using J update_team_log [OF up] by (simp add: J_def ps ms appearances_snoc)
  qed
  have J_init: "J [] ti0" if "ti_matches ti0 = []" and "player_stats ti0 = []" for ti0
    using that by (simp add: J_def appearances_def stats_of_def)
  from J_step J_init assms(1,2) obtain cs c ti0 where
    cs: "cluster_tournament_matches d = Inr cs" and c: "c \<in> set cs"
    and J: "J c ti0" and ti: "ti = finalize_all ti0"
    by (rule analyze_tournaments_invariant)
  from assms(3) ti obtain st0 where st0: "map_of (player_stats ti0) n = Some st0"
    and st: "st = finalize st0"
    by (auto simp: map_of_finalize_all)
  from st0 have "stats_of (player_stats ti0) n = st0"
    by (simp add: stats_of_def)
  moreover from J have "map perf_match_id (match_performances (stats_of (player_stats ti0) n)) =
      map mi_id (appearances n (ti_matches ti0))"
    unfolding J_def by blast
  ultimately have ids: "map perf_match_id (match_performances st) =
      map mi_id (appearances n (ti_matches ti))"
    by (simp add: st ti)
  have "sorted (map timestamp c)"
    using cs c by (rule clusters_sorted)
  with J have srt: "sorted (map mi_timestamp (ti_matches ti))"
    by (simp add: J_def ti)
  then have srt': "sorted (map mi_timestamp (appearances n (ti_matches ti)))"
    by (rule sorted_appearances)
  show ?thesis
    using len ids srt srt' appearances_distinct [of "ti_matches ti" n] by blast
qed

lemma scenario_player:
  obtains t1 t2 st where "fst (analyze_tournaments no_detail scenario ()) = Inr [t1, t2]"
    "t1 \<in> set [t1, t2]" "map_of (player_stats t1) ''Ace'' = Some st"
proof -
  from scenario_run obtain t1 t2 st where
    "analyze_tournaments no_detail scenario () = (Inr [t1, t2], ())"
    "map_of (player_stats t1) ''Ace'' = Some st"
    by (elim exE conjE)
  then show ?thesis
    using that [of t1 t2 st] by simp
qed

theorem best_kda_running_max_witness:
  "\<exists>t1 t2 st. fst (analyze_tournaments no_detail scenario ()) = Inr [t1, t2] \<and>
     map_of (player_stats t1) ''Ace'' = Some st \<and>
     best_kda st = Max (insert 0 (set (map kda (match_performances st))))"
proof -
  obtain t1 t2 st where run: "fst (analyze_tournaments no_detail scenario ()) = Inr [t1, t2]"
    and t1: "t1 \<in> set [t1, t2]" and st: "map_of (player_stats t1) ''Ace'' = Some st"
    by (rule scenario_player)
  note best_kda_running_max [THEN conjunct2, rule_format, OF run t1 st]
  then have "best_kda st = Max (insert 0 (set (map kda (match_performances st))))"
    by (rule conjunct1)
  with run st show ?thesis by blast
qed

theorem wins_and_losses_witness:
  "\<exists>t1 t2 st. fst (analyze_tournaments no_detail scenario ()) = Inr [t1, t2] \<and>
     map_of (player_stats t1) ''Ace'' = Some st \<and>
     wins st + losses st = matches_played st \<and> 0 < matches_played st"
proof -
  obtain t1 t2 st where run: "fst (analyze_tournaments no_detail scenario ()) = Inr [t1, t2]"
    and t1: "t1 \<in> set [t1, t2]" and st: "map_of (player_stats t1) ''Ace'' = Some st"
    by (rule scenario_player)
  note wins_and_losses [THEN conjunct2, rule_format, OF run t1 st]
  then have "wins st + losses st = matches_played st \<and> 0 < matches_played st"
    by blast
  with run st show ?thesis by blast
qed

theorem performance_log_witness:
  "\<exists>t1 t2 st. fst (analyze_tournaments no_detail scenario ()) = Inr [t1, t2] \<and>
     map_of (player_stats t1) ''Ace'' = Some st \<and>
     length (match_performances st) = matches_played st \<and>
     map perf_match_id (match_performances st) = map mi_id (appearances ''Ace'' (ti_matches t1)) \<and>
     sorted (map mi_timestamp (appearances ''Ace'' (ti_matches t1)))"
proof -
  obtain t1 t2 st where run: "fst (analyze_tournaments no_detail scenario ()) = Inr [t1, t2]"
    and t1: "t1 \<in> set [t1, t2]" and st: "map_of (player_stats t1) ''Ace'' = Some st"
    by (rule scenario_player)
  note performance_log [OF run t1 st]
  then have "length (match_performances st) = matches_played st \<and>
     map perf_match_id (match_performances st) = map mi_id (appearances ''Ace'' (ti_matches t1)) \<and>
     sorted (map mi_timestamp (appearances ''Ace'' (ti_matches t1)))"
    by blast
  with run st show ?thesis by blast
qed

section \<open>Fallback extraction\<close>

lemma ebind_Inl: "ebind r f = Inl e \<longleftrightarrow> r = Inl e \<or> (\<exists>x. r = Inr x \<and> f x = Inl e)"
  by (cases r) simp_all

lemma key_Inl: "key v = Inl e \<longleftrightarrow> v = None \<and> e = KeyError"
  by (cases v) auto

lemma stat_value_Inr: "stat_value st k = Inr v \<longleftrightarrow> st k = Some (Some v)"
  by (auto simp: stat_value_def ebind_Inr key_Inr)

lemma stat_value_Inl: "stat_value st k = Inl e \<longleftrightarrow> \<not> has_value st k \<and> e = KeyError"
  by (cases "st k") (auto simp: stat_value_def has_value_def key_Inl)

lemma has_value_iff: "has_value st k \<longleftrightarrow> (\<exists>v. stat_value st k = Inr v)"
  by (cases "st k") (auto simp: has_value_def stat_value_def key_Inr)

lemma overview_info_Inl: "overview_info s = Inl e \<Longrightarrow> e = KeyError \<and> \<not> required_present s"
  unfolding overview_info_def required_present_def
  by (auto simp: ebind_Inl key_Inl key_Inr stat_value_Inl split: option.splits)

lemma overview_info_Inr: "overview_info s = Inr p \<Longrightarrow> required_present s"
  unfolding overview_info_def required_present_def
  by (auto simp: ebind_Inr key_Inr has_value_iff split: option.splits)

lemma overview_info_cases:
  "(required_present s \<and> (\<exists>p. overview_info s = Inr p)) \<or>
   (\<not> required_present s \<and> overview_info s = Inl KeyError)"
  using overview_info_Inl [of s] overview_info_Inr [of s]
  by (cases "overview_info s") auto

lemma fallback_stats_complete:
  "\<forall>s\<in>set segs. is_overview s \<longrightarrow> required_present s \<Longrightarrow>
   \<exists>infos. map overview_info (filter is_overview segs) = map Inr infos \<and>
     fallback_stats pt ta oa segs =
       Inr (ta @ filter (\<lambda>p. team_id p = Some pt) infos,
            oa @ filter (\<lambda>p. team_id p \<noteq> Some pt) infos)"
proof (induction segs arbitrary: ta oa)
  case Nil
  then show ?case by simp
next
  case (Cons s segs)
  have rest: "\<forall>s\<in>set segs. is_overview s \<longrightarrow> required_present s"
    using Cons.prems by simp
  show ?case
  proof (cases "is_overview s")
    case False
    from Cons.IH [OF rest, of ta oa] show ?thesis
      using False by (simp add: is_overview_def)
  next
    case True
    with Cons.prems have "required_present s" by simp
    then obtain p where p: "overview_info s = Inr p"
      using overview_info_cases [of s] by blast
    show ?thesis
    proof (cases "team_id p = Some pt")
      case team: True
      from Cons.IH [OF rest, of "ta @ [p]" oa] obtain infos where
        "map overview_info (filter is_overview segs) = map Inr infos"
        "fallback_stats pt (ta @ [p]) oa segs =
           Inr ((ta @ [p]) @ filter (\<lambda>p. team_id p = Some pt) infos,
                oa @ filter (\<lambda>p. team_id p \<noteq> Some pt) infos)"
        by blast
      then have "map overview_info (filter is_overview (s # segs)) = map Inr (p # infos) \<and>
        fallback_stats pt ta oa (s # segs) =
          Inr (ta @ filter (\<lambda>p. team_id p = Some pt) (p # infos),
               oa @ filter (\<lambda>p. team_id p \<noteq> Some pt) (p # infos))"
        using True p team by (simp add: is_overview_def)
      then show ?thesis by blast
    next
      case opp: False
      from Cons.IH [OF rest, of ta "oa @ [p]"] obtain infos where
        "map overview_info (filter is_overview segs) = map Inr infos"
        "fallback_stats pt ta (oa @ [p]) segs =
           Inr (ta @ filter (\<lambda>p. team_id p = Some pt) infos,
                (oa @ [p]) @ filter (\<lambda>p. team_id p \<noteq> Some pt) infos)"
        by blast
      then have "map overview_info (filter is_overview (s # segs)) = map Inr (p # infos) \<and>
        fallback_stats pt ta oa (s # segs) =
          Inr (ta @ filter (\<lambda>p. team_id p = Some pt) (p # infos),
               oa @ filter (\<lambda>p. team_id p \<noteq> Some pt) (p # infos))"
        using True p opp by (simp add: is_overview_def)
      then show ?thesis by blast
    qed
  qed
qed

lemma fallback_stats_incomplete:
  "\<exists>s\<in>set segs. is_overview s \<and> \<not> required_present s \<Longrightarrow>
   fallback_stats pt ta oa segs = Inl KeyError"
proof (induction segs arbitrary: ta oa)
  case Nil
  then show ?case by simp
next
  case (Cons s segs)
  show ?case
  proof (cases "is_overview s")
    case False
    with Cons.prems have "\<exists>s\<in>set segs. is_overview s \<and> \<not> required_present s" by auto
    from Cons.IH [OF this, of ta oa] show ?thesis
      using False by (simp add: is_overview_def)
  next
    case True
    show ?thesis
    proof (cases "required_present s")
      case False
      then have "overview_info s = Inl KeyError"
        using overview_info_cases [of s] by blast
      then show ?thesis
        using True by (simp add: is_overview_def)
    next
      case present: True
      then obtain p where p: "overview_info s = Inr p"
        using overview_info_cases [of s] by blast
      from Cons.prems present have later: "\<exists>s\<in>set segs. is_overview s \<and> \<not> required_present s"
        by auto
      show ?thesis
        using True p Cons.IH [OF later, of "ta @ [p]" oa] Cons.IH [OF later, of ta "oa @ [p]"]
        by (simp add: is_overview_def)
    qed
  qed
qed

lemma overview_info_counters:
  assumes "overview_info s = Inr p" "stats s = Some st"
  shows "st ''kills'' = Some (Some (get p ''kills''))"
    and "st ''deaths'' = Some (Some (get p ''deaths''))"
    and "st ''assists'' = Some (Some (get p ''assists''))"
    and "st ''kdaRatio'' = Some (Some (get p ''kdaRatio''))"
    and "st ''totalHeroDamage'' = Some (Some (get p ''totalHeroDamage''))"
    and "get p ''totalHeroHeal'' = stat_value_or_0 st ''totalHeroHeal''"
  using assms
  by (auto simp: overview_info_def ebind_Inr key_Inr stat_value_Inr get_def)

lemma no_kills_fallback: "fallback_stats 0 [] [] [no_kills_segment] = Inl KeyError"
  by (rule fallback_stats_incomplete)
     (simp add: is_overview_def required_present_def no_kills_segment_def has_value_def)

lemma no_kills_team: "find_player_team (Some ''Ace'') (matches no_kills_feed) = Inr (Some 0)"
  by (simp add: no_kills_feed_def tournament_match_def no_kills_segment_def handle_of_def)

lemma no_kills_clusters:
  "cluster_tournament_matches no_kills_feed = Inr [[summary ''m1'' 0 600 [no_kills_segment]]]"
  by (simp add: cluster_tournament_matches_def no_kills_feed_def tournament_match_def
      summarise_def cluster_sorted_def summary_def)

lemma no_kills_ign: "ign no_kills_feed = Some ''Ace''"
  by (simp add: no_kills_feed_def)

lemma no_kills_run: "analyze_tournaments no_detail no_kills_feed () = (Inl KeyError, ())"
  by (simp add: analyze_tournaments_def no_kills_ign no_kills_team no_kills_clusters
      analyze_tournament_def no_detail_def fold_match_def summary_def no_kills_fallback
      del: fallback_stats.simps)

text \<open>
  Claim C1, as stated, fails: the fallback extraction reads \<open>kills\<close>, \<open>deaths\<close>,
  \<open>assists\<close>, \<open>kdaRatio\<close> and \<open>totalHeroDamage\<close> by subscript. On an overview segment
  whose stats bag has no \<open>kills\<close> it raises \<open>KeyError\<close>, and the run ends with it.
\<close>

theorem fallback_missing_kills:
  "is_overview no_kills_segment \<and> stats_bag no_kills_segment ''kills'' = None \<and>
   fallback_stats 0 [] [] [no_kills_segment] = Inl KeyError \<and>
   analyze_tournaments no_detail no_kills_feed () = (Inl KeyError, ())"
  by (simp add: no_kills_fallback no_kills_run del: fallback_stats.simps)
     (simp add: is_overview_def stats_bag_def no_kills_segment_def)

text \<open>
  Claim C1, amended. In the fallback extraction only \<open>totalHeroHeal\<close> is read with a
  default: absent, or without a value, it is 0. When every overview segment has its
  handle, its result and the five other counters, the extraction returns the split: the
  dictionaries of the overview segments, in their order, those with the reference team id
  on the team side and all others on the opponent side, the counters as in the stats
  bag. When an overview segment lacks one of these, the extraction raises \<open>KeyError\<close>.
\<close>

theorem fallback_split:
  "(\<forall>pt segs. (\<forall>s\<in>set segs. is_overview s \<longrightarrow> required_present s) \<longrightarrow>
      (\<exists>infos. map overview_info (filter is_overview segs) = map Inr infos \<and>
         fallback_stats pt [] [] segs =
           Inr (filter (\<lambda>p. team_id p = Some pt) infos,
                filter (\<lambda>p. team_id p \<noteq> Some pt) infos))) \<and>
   (\<forall>s st p. overview_info s = Inr p \<longrightarrow> stats s = Some st \<longrightarrow>
      (st ''totalHeroHeal'' = None \<longrightarrow> get p ''totalHeroHeal'' = 0) \<and>
      (st ''totalHeroHeal'' = Some None \<longrightarrow> get p ''totalHeroHeal'' = 0) \<and>
      (\<forall>v. st ''totalHeroHeal'' = Some (Some v) \<longrightarrow> get p ''totalHeroHeal'' = v) \<and>
      st ''kills'' = Some (Some (get p ''kills'')) \<and>
      st ''deaths'' = Some (Some (get p ''deaths'')) \<and>
      st ''assists'' = Some (Some (get p ''assists'')) \<and>
      st ''kdaRatio'' = Some (Some (get p ''kdaRatio'')) \<and>
      st ''totalHeroDamage'' = Some (Some (get p ''totalHeroDamage''))) \<and>
   (\<forall>pt segs. (\<exists>s\<in>set segs. is_overview s \<and> \<not> required_present s) \<longrightarrow>
      fallback_stats pt [] [] segs = Inl KeyError)"
proof (intro conjI allI impI)
  fix pt segs
  assume "\<forall>s\<in>set segs. is_overview s \<longrightarrow> required_present s"
  from fallback_stats_complete [OF this, of pt "[]" "[]"]
  show "\<exists>infos. map overview_info (filter is_overview segs) = map Inr infos \<and>
         fallback_stats pt [] [] segs =
           Inr (filter (\<lambda>p. team_id p = Some pt) infos,
                filter (\<lambda>p. team_id p \<noteq> Some pt) infos)"
    by simp
next
  fix pt segs
  assume "\<exists>s\<in>set segs. is_overview s \<and> \<not> required_present s"
  then show "fallback_stats pt [] [] segs = Inl KeyError"
    by (rule fallback_stats_incomplete)
next
  fix s st p
  assume info: "overview_info s = Inr p" and st: "stats s = Some st"
  note c = overview_info_counters [OF info st]
  show "st ''kills'' = Some (Some (get p ''kills''))"
    and "st ''deaths'' = Some (Some (get p ''deaths''))"
    and "st ''assists'' = Some (Some (get p ''assists''))"
    and "st ''kdaRatio'' = Some (Some (get p ''kdaRatio''))"
    and "st ''totalHeroDamage'' = Some (Some (get p ''totalHeroDamage''))"
    by (rule c)+
  {
    assume "st ''totalHeroHeal'' = None"
    then show "get p ''totalHeroHeal'' = 0"
      by (simp add: c(6) stat_value_or_0_def)
  }
  {
    assume "st ''totalHeroHeal'' = Some None"
    then show "get p ''totalHeroHeal'' = 0"
      by (simp add: c(6) stat_value_or_0_def)
  }
  {
    fix v
    assume "st ''totalHeroHeal'' = Some (Some v)"
    then show "get p ''totalHeroHeal'' = v"
      by (simp add: c(6) stat_value_or_0_def)
  }
qed

lemma overview_segment_present: "required_present (overview_segment h t r k d a)"
  by (simp add: required_present_def overview_segment_def has_value_def)

theorem fallback_split_witness:
  "required_present (overview_segment ''Ace'' 0 ''win'' 10 2 3) \<and>
   (\<exists>infos.
      map overview_info (filter is_overview [overview_segment ''Ace'' 0 ''win'' 10 2 3]) =
        map Inr infos \<and>
      fallback_stats 0 [] [] [overview_segment ''Ace'' 0 ''win'' 10 2 3] =
        Inr (filter (\<lambda>p. team_id p = Some 0) infos, filter (\<lambda>p. team_id p \<noteq> Some 0) infos))"
proof -
  have "\<forall>s\<in>set [overview_segment ''Ace'' 0 ''win'' 10 2 3]. is_overview s \<longrightarrow> required_present s"
    by (simp add: overview_segment_present)
  with fallback_split [THEN conjunct1, rule_format, of "[overview_segment ''Ace'' 0 ''win'' 10 2 3]" 0]
  show ?thesis
    using overview_segment_present by blast
qed

section \<open>The check of the reference player's team\<close>

text \<open>
  Which exceptions the functions raise: only the check itself raises \<open>ValueError\<close>.
\<close>

lemma index_Inl: "index xs i = Inl e \<Longrightarrow> e = IndexError"
  by (auto simp: index_def split: if_splits)

lemma summarise_Inl: "summarise r a = Inl e \<Longrightarrow> e = KeyError"
  by (auto simp: summarise_def ebind_Inl key_Inl)

lemma collect_matches_Inl: "collect_matches rs = Inl e \<Longrightarrow> e = KeyError"
proof (induction rs)
  case Nil
  then show ?case by simp
next
  case (Cons r rs)
  then show ?case
    by (auto simp: ebind_Inl key_Inl split: if_splits dest: summarise_Inl)
qed

lemma cluster_tournament_matches_Inl: "cluster_tournament_matches d = Inl e \<Longrightarrow> e = KeyError"
  by (auto simp: cluster_tournament_matches_def ebind_Inl dest: collect_matches_Inl)

lemma handle_of_Inl: "handle_of s = Inl e \<Longrightarrow> e = KeyError"
  by (auto simp: handle_of_def ebind_Inl key_Inl)

lemma main_team_of_Inl: "main_team_of player_ign segs = Inl e \<Longrightarrow> e = KeyError"
  by (induction segs) (auto simp: ebind_Inl split: if_splits dest: handle_of_Inl)

lemma build_player_info_Inl: "build_player_info dur s = Inl e \<Longrightarrow> e = KeyError"
  by (auto simp: build_player_info_def ebind_Inl key_Inl)

lemma split_segments_Inl: "split_segments dur mt ta oa segs = Inl e \<Longrightarrow> e = KeyError"
proof (induction segs arbitrary: ta oa)
  case Nil
  then show ?case by simp
next
  case (Cons s segs)
  show ?case
  proof (cases "seg_type s = Some ''player''")
    case False
    with Cons.prems have "split_segments dur mt ta oa segs = Inl e" by simp
    then show ?thesis by (rule Cons.IH)
  next
    case True
    show ?thesis
    proof (cases "build_player_info dur s")
      case (Inl e')
      with Cons.prems True have "e' = e" by simp
      with Inl show ?thesis by (auto dest: build_player_info_Inl)
    next
      case (Inr p)
      with Cons.prems True
      have "split_segments dur mt (ta @ [p]) oa segs = Inl e \<or>
            split_segments dur mt ta (oa @ [p]) segs = Inl e"
        by (simp split: if_splits)
      then show ?thesis
        using Cons.IH by blast
    qed
  qed
qed

lemma extract_player_stats_Inl: "extract_player_stats dm player_ign = Inl e \<Longrightarrow> e = KeyError"
  by (auto simp: extract_player_stats_def Let_def ebind_Inl
      dest: main_team_of_Inl split_segments_Inl)

lemma fallback_stats_Inl: "fallback_stats pt ta oa segs = Inl e \<Longrightarrow> e = KeyError"
proof (induction segs arbitrary: ta oa)
  case Nil
  then show ?case by simp
next
  case (Cons s segs)
  show ?case
  proof (cases "seg_type s = Some ''overview''")
    case False
    with Cons.prems have "fallback_stats pt ta oa segs = Inl e" by simp
    then show ?thesis by (rule Cons.IH)
  next
    case True
    show ?thesis
    proof (cases "overview_info s")
      case (Inl e')
      with Cons.prems True have "e' = e" by simp
      with Inl show ?thesis by (auto dest: overview_info_Inl)
    next
      case (Inr p)
      with Cons.prems True
      have "fallback_stats pt (ta @ [p]) oa segs = Inl e \<or>
            fallback_stats pt ta (oa @ [p]) segs = Inl e"
        by (simp split: if_splits)
      then show ?thesis
        using Cons.IH by blast
    qed
  qed
qed

lemma update_player_Inl: "update_player mid dur st p = Inl e \<Longrightarrow> e = IndexError"
  by (auto simp: update_player_def ebind_Inl dest: index_Inl)

lemma update_team_Inl: "update_team mid dur ps team = Inl e \<Longrightarrow> e = IndexError"
proof (induction team arbitrary: ps)
  case Nil
  then show ?case by simp
next
  case (Cons p rest)
  then show ?case
    by (auto simp: ebind_Inl dest: update_player_Inl)
qed

lemma score_of_Inl: "score_of pt sc = Inl e \<Longrightarrow> e = IndexError"
  by (auto simp: score_of_def ebind_Inl split: if_splits dest: index_Inl)

lemma fold_match_Inl: "fold_match player_ign pt dm m ti = Inl e \<Longrightarrow> e \<noteq> ValueError"
  by (auto simp: fold_match_def ebind_Inl split: option.splits
      dest: extract_player_stats_Inl fallback_stats_Inl update_team_Inl score_of_Inl)

lemma process_matches_Inl:
  "fst (process_matches resolve player_ign pt ms w ti) = Inl e \<Longrightarrow> e \<noteq> ValueError"
proof (induction ms arbitrary: w ti)
  case Nil
  then show ?case by simp
next
  case (Cons m ms)
  obtain dm w1 where res: "resolve w (match_id m) = (dm, w1)"
    by (cases "resolve w (match_id m)")
  show ?case
  proof (cases "fold_match player_ign pt dm m ti")
    case (Inl e')
    with Cons.prems res have "e' = e" by simp
    with Inl show ?thesis by (auto dest: fold_match_Inl)
  next
    case (Inr ti1)
    with Cons.prems res
    have "fst (process_matches resolve player_ign pt ms w1 ti1) = Inl e" by simp
    then show ?thesis by (rule Cons.IH)
  qed
qed

lemma analyze_tournament_Inl:
  assumes "fst (analyze_tournament resolve player_ign pt idx c w) = Inl e"
  shows "e \<noteq> ValueError"
proof (cases c)
  case Nil
  with assms show ?thesis by (simp add: analyze_tournament_def)
next
  case (Cons m ms)
  define ti0 where "ti0 = \<lparr>ti_id = idx + 1, start_date = timestamp (hd c),
      end_date = timestamp (last c), match_count = length c, ti_matches = [],
      player_stats = []\<rparr>"
  obtain r w1 where pm: "process_matches resolve player_ign pt c w ti0 = (r, w1)"
    by (cases "process_matches resolve player_ign pt c w ti0")
  show ?thesis
  proof (cases r)
    case (Inl e')
    with assms pm Cons have "e' = e"
      by (simp add: analyze_tournament_def ti0_def)
    moreover have "fst (process_matches resolve player_ign pt c w ti0) = Inl e'"
      using pm Inl by simp
    ultimately show ?thesis
      by (auto dest: process_matches_Inl)
  next
    case (Inr ti1)
    with assms pm Cons show ?thesis
      by (simp add: analyze_tournament_def ti0_def)
  qed
qed

lemma analyze_loop_Inl:
  "fst (analyze_loop resolve player_ign pt idx cs w res) = Inl e \<Longrightarrow> e \<noteq> ValueError"
proof (induction cs arbitrary: idx w res)
  case Nil
  then show ?case by simp
next
  case (Cons c cs)
  obtain r w1 where at: "analyze_tournament resolve player_ign pt idx c w = (r, w1)"
    by (cases "analyze_tournament resolve player_ign pt idx c w")
  show ?case
  proof (cases r)
    case (Inl e')
    with Cons.prems at have "e' = e" by simp
    moreover have "fst (analyze_tournament resolve player_ign pt idx c w) = Inl e'"
      using at Inl by simp
    ultimately show ?thesis
      by (auto dest: analyze_tournament_Inl)
  next
    case (Inr t)
    with Cons.prems at
    have "fst (analyze_loop resolve player_ign pt (idx + 1) cs w1 (res @ [t])) = Inl e"
      by simp
    then show ?thesis by (rule Cons.IH)
  qed
qed

lemma team_found_no_ValueError:
  assumes "find_player_team (ign d) (matches d) = Inr (Some t)"
  shows "fst (analyze_tournaments resolve d w) \<noteq> Inl ValueError"
proof (cases "cluster_tournament_matches d")
  case (Inl e)
  then have "e = KeyError" by (rule cluster_tournament_matches_Inl)
  with assms Inl show ?thesis
    by (simp add: analyze_tournaments_def)
next
  case (Inr cs)
  with assms have "fst (analyze_tournaments resolve d w) =
      fst (analyze_loop resolve (ign d) t 0 cs w [])"
    by (simp add: analyze_tournaments_def)
  then show ?thesis
    using analyze_loop_Inl [of resolve "ign d" t 0 cs w "[]" ValueError] by auto
qed

lemma team_missing_ValueError:
  assumes "find_player_team (ign d) (matches d) = Inr None"
  shows "analyze_tournaments resolve d w = (Inl ValueError, w)"
  using assms by (simp add: analyze_tournaments_def)

lemma handle_of_Inr:
  "handle_of s = Inr (md, h) \<longleftrightarrow> metadata s = Some md \<and> platformUserHandle md = Some h"
  by (auto simp: handle_of_def ebind_Inr key_Inr)

lemma handle_of_cases:
  obtains (missing) "handle_of s = Inl KeyError"
  | (present) md h where "handle_of s = Inr (md, h)" "team_of s = teamId md"
proof (cases "handle_of s")
  case (Inl e)
  then have "e = KeyError" by (rule handle_of_Inl)
  with Inl missing show ?thesis by simp
next
  case (Inr x)
  obtain md h where x: "x = (md, h)" by (cases x)
  with Inr have "metadata s = Some md" by (simp add: handle_of_Inr)
  then have "team_of s = teamId md" by (simp add: team_of_def)
  with Inr x present show ?thesis by simp
qed

lemma scan_segments_first:
  "\<forall>s\<in>set segs. is_overview s \<longrightarrow> handle_of s \<noteq> Inl KeyError \<Longrightarrow>
   scan_segments player_ign segs =
     Inr (case find (own_overview player_ign) segs of None \<Rightarrow> None | Some s \<Rightarrow> team_of s)"
proof (induction segs)
  case Nil
  then show ?case by simp
next
  case (Cons s segs)
  have IH: "scan_segments player_ign segs =
     Inr (case find (own_overview player_ign) segs of None \<Rightarrow> None | Some s \<Rightarrow> team_of s)"
    using Cons by simp
  show ?case
  proof (cases "is_overview s")
    case False
    then have "\<not> own_overview player_ign s"
      by (simp add: own_overview_def)
    with False IH show ?thesis
      by (simp add: is_overview_def)
  next
    case True
    with Cons.prems have "handle_of s \<noteq> Inl KeyError" by simp
    then obtain md h where h: "handle_of s = Inr (md, h)" and t: "team_of s = teamId md"
      by (cases s rule: handle_of_cases) simp_all
    from True h have own: "own_overview player_ign s \<longleftrightarrow> Some h = player_ign"
      by (simp add: own_overview_def)
    show ?thesis
      using True h t IH own by (simp add: is_overview_def)
  qed
qed

lemma handles_present_iff:
  "handles_present m \<longleftrightarrow> (\<forall>s\<in>set (raw_segments m). is_overview s \<longrightarrow> handle_of s \<noteq> Inl KeyError)"
proof -
  have "(case handle_of s of Inl e \<Rightarrow> False | Inr x \<Rightarrow> True) \<longleftrightarrow> handle_of s \<noteq> Inl KeyError" for s
    by (cases s rule: handle_of_cases) simp_all
  then show ?thesis
    by (simp add: handles_present_def list_all_iff)
qed

lemma scan_segments_match:
  "handles_present m \<Longrightarrow> scan_segments player_ign (raw_segments m) = Inr (first_team player_ign m)"
  by (simp add: handles_present_iff scan_segments_first first_team_def)

lemma find_player_team_none:
  "\<forall>m\<in>set ms. handles_present m \<and> first_team player_ign m = None \<Longrightarrow>
   find_player_team player_ign ms = Inr None"
  by (induction ms) (simp_all add: scan_segments_match)

lemma find_player_team_some:
  "\<forall>m\<in>set ms. handles_present m \<Longrightarrow> \<exists>m\<in>set ms. first_team player_ign m \<noteq> None \<Longrightarrow>
   \<exists>t. find_player_team player_ign ms = Inr (Some t)"
proof (induction ms)
  case Nil
  then show ?case by simp
next
  case (Cons m ms)
  show ?case
  proof (cases "first_team player_ign m")
    case None
    with Cons.prems have "\<exists>m\<in>set ms. first_team player_ign m \<noteq> None" by auto
    moreover from Cons.prems have "\<forall>m\<in>set ms. handles_present m" by simp
    ultimately have "\<exists>t. find_player_team player_ign ms = Inr (Some t)"
      by (rule Cons.IH [rotated])
    then show ?thesis
      using Cons.prems(1) None by (simp add: scan_segments_match)
  next
    case (Some t)
    then show ?thesis
      using Cons.prems(1) by (simp add: scan_segments_match)
  qed
qed

lemma scan_segments_fatal:
  "\<forall>s\<in>set segs. own_overview player_ign s \<longrightarrow> team_of s = None \<Longrightarrow>
   scan_segments player_ign segs = Inr None \<or> scan_segments player_ign segs = Inl KeyError"
proof (induction segs)
  case Nil
  then show ?case by simp
next
  case (Cons s segs)
  have IH: "scan_segments player_ign segs = Inr None \<or>
            scan_segments player_ign segs = Inl KeyError"
    using Cons by simp
  show ?case
  proof (cases "is_overview s")
    case False
    with IH show ?thesis by (simp add: is_overview_def)
  next
    case True
    show ?thesis
    proof (cases s rule: handle_of_cases)
      case missing
      with True show ?thesis by (simp add: is_overview_def)
    next
      case (present md h)
      show ?thesis
      proof (cases "Some h = player_ign")
        case own: True
        with True present have "own_overview player_ign s"
          by (simp add: own_overview_def)
        with Cons.prems have "team_of s = None" by simp
        with True present own show ?thesis by (simp add: is_overview_def)
      next
        case False
        with True present IH show ?thesis by (simp add: is_overview_def)
      qed
    qed
  qed
qed

lemma find_player_team_fatal:
  "\<forall>m\<in>set ms. \<forall>s\<in>set (raw_segments m). own_overview player_ign s \<longrightarrow> team_of s = None \<Longrightarrow>
   find_player_team player_ign ms = Inr None \<or> find_player_team player_ign ms = Inl KeyError"
proof (induction ms)
  case Nil
  then show ?case by simp
next
  case (Cons m ms)
  have IH: "find_player_team player_ign ms = Inr None \<or>
            find_player_team player_ign ms = Inl KeyError"
    using Cons by simp
  have "scan_segments player_ign (raw_segments m) = Inr None \<or>
        scan_segments player_ign (raw_segments m) = Inl KeyError"
    using Cons.prems by (intro scan_segments_fatal) simp
  with IH show ?case by auto
qed

lemma late_team_run: "analyze_tournaments no_detail late_team_feed () = (Inl ValueError, ())"
  by (simp add: analyze_tournaments_def late_team_feed_def tournament_match_def
      teamless_segment_def handle_of_def)

text \<open>
  Claim C5, as stated, fails in its last part: in each match the scan reads only the
  first overview segment that carries the reference handle. In \<open>late_team_feed\<close> that
  segment has no team id and the one after it has the team id 1; the run ends with the
  \<open>ValueError\<close> of the check.
\<close>

theorem team_in_later_segment:
  "ign late_team_feed = Some ''Ace'' \<and>
   matches late_team_feed =
     [tournament_match ''m1'' 0 600
        [teamless_segment, overview_segment ''Ace'' 1 ''win'' 10 2 3]] \<and>
   own_overview (Some ''Ace'') (overview_segment ''Ace'' 1 ''win'' 10 2 3) \<and>
   team_of (overview_segment ''Ace'' 1 ''win'' 10 2 3) = Some 1 \<and>
   analyze_tournaments no_detail late_team_feed () = (Inl ValueError, ())"
  by (simp add: late_team_run)
     (simp add: late_team_feed_def own_overview_def is_overview_def team_of_def
      overview_segment_def handle_of_def)

text \<open>
  Claim C5, amended. The run raises a fatal error, with no call of the resolver, when no
  overview segment with the reference handle has a team id: the \<open>ValueError\<close> of the
  check, or the \<open>KeyError\<close> of an overview segment without a handle. The check comes
  before the clustering and the aggregation: when the scan finds no team id, the result
  is the \<open>ValueError\<close> and the state of the world is unchanged, whatever the clusterer
  and the resolver would do. In each match the scan reads the first overview segment with
  the reference handle: when all overview segments have a handle, the check aborts the
  run if no match has a team id there, and does not abort it if some match has one.
\<close>

theorem team_check:
  "(\<forall>resolve d w.
      (\<forall>m\<in>set (matches d). \<forall>s\<in>set (raw_segments m).
         own_overview (ign d) s \<longrightarrow> team_of s = None) \<longrightarrow>
      analyze_tournaments resolve d w = (Inl ValueError, w) \<or>
      analyze_tournaments resolve d w = (Inl KeyError, w)) \<and>
   (\<forall>resolve d w. find_player_team (ign d) (matches d) = Inr None \<longrightarrow>
      analyze_tournaments resolve d w = (Inl ValueError, w)) \<and>
   (\<forall>resolve d w.
      (\<forall>m\<in>set (matches d). handles_present m \<and> first_team (ign d) m = None) \<longrightarrow>
      analyze_tournaments resolve d w = (Inl ValueError, w)) \<and>
   (\<forall>resolve d w.
      (\<forall>m\<in>set (matches d). handles_present m) \<longrightarrow>
      (\<exists>m\<in>set (matches d). first_team (ign d) m \<noteq> None) \<longrightarrow>
      fst (analyze_tournaments resolve d w) \<noteq> Inl ValueError)"
proof (intro conjI allI impI)
  fix resolve :: "'w resolver" and d :: data and w
  assume "\<forall>m\<in>set (matches d). \<forall>s\<in>set (raw_segments m).
         own_overview (ign d) s \<longrightarrow> team_of s = None"
  then have "find_player_team (ign d) (matches d) = Inr None \<or>
             find_player_team (ign d) (matches d) = Inl KeyError"
    by (rule find_player_team_fatal)
  then show "analyze_tournaments resolve d w = (Inl ValueError, w) \<or>
      analyze_tournaments resolve d w = (Inl KeyError, w)"
    by (auto simp: analyze_tournaments_def)
next
  fix resolve :: "'w resolver" and d :: data and w
  assume "find_player_team (ign d) (matches d) = Inr None"
  then show "analyze_tournaments resolve d w = (Inl ValueError, w)"
    by (rule team_missing_ValueError)
next
  fix resolve :: "'w resolver" and d :: data and w
  assume "\<forall>m\<in>set (matches d). handles_present m \<and> first_team (ign d) m = None"
  then have "find_player_team (ign d) (matches d) = Inr None"
    by (rule find_player_team_none)
  then show "analyze_tournaments resolve d w = (Inl ValueError, w)"
    by (rule team_missing_ValueError)
next
  fix resolve :: "'w resolver" and d :: data and w
  assume "\<forall>m\<in>set (matches d). handles_present m"
    and "\<exists>m\<in>set (matches d). first_team (ign d) m \<noteq> None"
  then obtain t where "find_player_team (ign d) (matches d) = Inr (Some t)"
    using find_player_team_some by blast
  then show "fst (analyze_tournaments resolve d w) \<noteq> Inl ValueError"
    by (rule team_found_no_ValueError)
qed

lemma scenario_handles: "\<forall>m\<in>set (matches scenario). handles_present m"
  by (simp add: scenario_def tournament_match_def overview_segment_def handles_present_def
      handle_of_def)

lemma scenario_first_team:
  "\<exists>m\<in>set (matches scenario). first_team (ign scenario) m \<noteq> None"
  by (simp add: scenario_def tournament_match_def overview_segment_def first_team_def
      own_overview_def is_overview_def handle_of_def team_of_def)

theorem team_check_witness:
  "fst (analyze_tournaments no_detail scenario ()) \<noteq> Inl ValueError \<and>
   analyze_tournaments no_detail \<lparr>ign = Some ''Ace'', matches = []\<rparr> () = (Inl ValueError, ())"
proof -
  have "fst (analyze_tournaments no_detail scenario ()) \<noteq> Inl ValueError"
    using team_check [THEN conjunct2, THEN conjunct2, THEN conjunct2, rule_format,
        where d = scenario and resolve = no_detail and w = "()"]
      scenario_handles scenario_first_team
    by blast
  moreover have "analyze_tournaments no_detail \<lparr>ign = Some ''Ace'', matches = []\<rparr> () =
      (Inl ValueError, ())"
    using team_check [THEN conjunct2, THEN conjunct1, rule_format,
        where d = "\<lparr>ign = Some ''Ace'', matches = []\<rparr>" and resolve = no_detail and w = "()"]
    by simp
  ultimately show ?thesis ..
qed

end
